theory Spec2Isabelle
  imports Main "HOL-Library.Word"
begin

section \<open>Memory\<close>

text \<open>
  The functions of \<^verbatim>\<open>PLCrashAsync.c\<close> work on raw pointers. Memory is a total map from
  addresses to bytes; a pointer is an address, and pointer arithmetic is addition on
  addresses. \<open>load mem p n\<close> is the byte range \<open>p[0..n)\<close>.
\<close>

type_synonym byte = "8 word"
type_synonym addr = nat
type_synonym memory = "addr \<Rightarrow> byte"

definition load :: "memory \<Rightarrow> addr \<Rightarrow> nat \<Rightarrow> byte list" where
  "load mem p n = map (\<lambda>i. mem (p + i)) [0..<n]"

section \<open>Byte primitives\<close>

subsection \<open>\<^verbatim>\<open>plcrash_async_memcpy\<close>\<close>

text \<open>
  \<^verbatim>\<open>for (size_t count = 0; count < n; count++) *d++ = *s++;\<close> followed by
  \<^verbatim>\<open>return (void *) source;\<close>. The loop is the recursion on \<open>count\<close>; the function
  returns the pointer it hands back together with the memory it leaves.
\<close>

function memcpy_loop :: "memory \<Rightarrow> addr \<Rightarrow> addr \<Rightarrow> nat \<Rightarrow> nat \<Rightarrow> memory" where
  "memcpy_loop mem d s count n =
     (if count < n then memcpy_loop (mem(d := mem s)) (Suc d) (Suc s) (Suc count) n
      else mem)"
  by pat_completeness auto
termination
  by (relation "measure (\<lambda>(mem, d, s, count, n). n - count)") auto

definition plcrash_async_memcpy :: "memory \<Rightarrow> addr \<Rightarrow> addr \<Rightarrow> nat \<Rightarrow> addr \<times> memory" where
  "plcrash_async_memcpy mem dest source n = (source, memcpy_loop mem dest source 0 n)"

subsection \<open>\<^verbatim>\<open>plcrash_async_strncmp\<close>\<close>

text \<open>
  The loop condition \<^verbatim>\<open>*s1 == *s2++ && n-- > 0\<close> always advances \<open>s2\<close>, and decrements
  \<open>n\<close> only when the two bytes are equal. \<open>n\<close> is a \<^verbatim>\<open>size_t\<close>: the decrement at
  \<open>n = 0\<close> wraps around, so \<open>n\<close> is a machine word (of any width). The value returned
  is a C \<^verbatim>\<open>int\<close>, the difference of two bytes read as unsigned.
\<close>

definition strncmp_exit :: "memory \<Rightarrow> addr \<Rightarrow> addr \<Rightarrow> 'a::len word \<Rightarrow> int" where
  "strncmp_exit mem s1 s2 n =
     (if n = 0 then 0 else int (unat (mem s1)) - int (unat (mem (s2 - 1))))"

function strncmp_loop :: "memory \<Rightarrow> addr \<Rightarrow> addr \<Rightarrow> 'a::len word \<Rightarrow> int" where
  "strncmp_loop mem s1 s2 n =
     (if mem s1 = mem s2 then
        (if n > 0 then
           (if mem s1 = 0 then 0
            else strncmp_loop mem (Suc s1) (Suc s2) (n - 1))
         else strncmp_exit mem s1 (Suc s2) (n - 1))
      else strncmp_exit mem s1 (Suc s2) n)"
  by pat_completeness auto
termination
  by (relation "measure (\<lambda>(mem, s1, s2, n). unat n)")
     (auto simp: unat_minus_one word_greater_zero_iff unat_gt_0)

definition plcrash_async_strncmp :: "memory \<Rightarrow> addr \<Rightarrow> addr \<Rightarrow> 'a::len word \<Rightarrow> int" where
  "plcrash_async_strncmp mem s1 s2 n = strncmp_loop mem s1 s2 n"

text \<open>
  What the comparison is meant to compute, in the words of its description: scanning
  the two sequences from the front, position \<open>i\<close> stops the scan when the bytes differ
  there or when the byte of \<open>s1\<close> is the terminator; the result is the difference at the
  first stopping position below \<open>n\<close>, read as unsigned bytes, and \<open>0\<close> when there is
  none.
\<close>

definition stops :: "memory \<Rightarrow> addr \<Rightarrow> addr \<Rightarrow> nat \<Rightarrow> bool" where
  "stops mem s1 s2 i = (mem (s1 + i) \<noteq> mem (s2 + i) \<or> mem (s1 + i) = 0)"

definition byte_diff :: "memory \<Rightarrow> addr \<Rightarrow> addr \<Rightarrow> nat \<Rightarrow> int" where
  "byte_diff mem s1 s2 i = int (unat (mem (s1 + i))) - int (unat (mem (s2 + i)))"

definition bounded_compare :: "memory \<Rightarrow> addr \<Rightarrow> addr \<Rightarrow> nat \<Rightarrow> int" where
  "bounded_compare mem s1 s2 n =
     (case find (stops mem s1 s2) [0..<n] of
        None \<Rightarrow> 0
      | Some i \<Rightarrow> byte_diff mem s1 s2 i)"

section \<open>The operating system\<close>

text \<open>
  \<^verbatim>\<open>write(2)\<close> and \<^verbatim>\<open>close(2)\<close> are the environment of the writer. The machine state holds
  the memory, \<^verbatim>\<open>errno\<close>, the bytes each descriptor has received so far, the descriptors
  that were closed, and the number of \<^verbatim>\<open>write\<close> calls issued. What the kernel answers to
  the \<open>k\<close>-th \<^verbatim>\<open>write\<close> call is given by \<open>write_env\<close>: it takes at most so many bytes (a
  short write when fewer than requested, \<open>0\<close> when it takes none and leaves \<^verbatim>\<open>errno\<close>
  alone), or it fails with \<open>-1\<close> and sets \<^verbatim>\<open>errno\<close>. \<open>close_env\<close> gives the error of
  \<^verbatim>\<open>close\<close> on a descriptor, if any. Every behaviour of the kernel is some choice of
  \<open>write_env\<close> and \<open>close_env\<close>. \<open>EINTR\<close> is the value of that name in \<^verbatim>\<open>errno.h\<close>; only
  its being one fixed value matters.
\<close>

datatype write_outcome = Transfer nat | Errno int

record machine =
  mem :: memory
  errno :: int
  delivered :: "int \<Rightarrow> byte list"
  closed :: "int list"
  nwrites :: nat
  write_env :: "nat \<Rightarrow> write_outcome"
  close_env :: "int \<Rightarrow> int option"

definition EINTR :: int where
  "EINTR = 4"

definition sys_write :: "int \<Rightarrow> addr \<Rightarrow> nat \<Rightarrow> machine \<Rightarrow> int \<times> machine" where
  "sys_write d p left m =
     (case write_env m (nwrites m) of
        Transfer k \<Rightarrow>
          (int (min k left),
           m\<lparr>delivered := (delivered m)(d := delivered m d @ load (mem m) p (min k left)),
             nwrites := Suc (nwrites m)\<rparr>)
      | Errno e \<Rightarrow> (- 1, m\<lparr>errno := e, nwrites := Suc (nwrites m)\<rparr>))"

definition sys_close :: "int \<Rightarrow> machine \<Rightarrow> int \<times> machine" where
  "sys_close d m =
     (case close_env m d of
        None \<Rightarrow> (0, m\<lparr>closed := d # closed m\<rparr>)
      | Some e \<Rightarrow> (- 1, m\<lparr>errno := e\<rparr>))"

section \<open>Buffered output\<close>

subsection \<open>\<^verbatim>\<open>plcrash_async_writen\<close>\<close>

text \<open>
  The loop runs while \<open>left > 0\<close>. A \<^verbatim>\<open>write\<close> that returns \<open>\<le> 0\<close> ends it with \<open>-1\<close>
  unless \<^verbatim>\<open>errno\<close> is \<open>EINTR\<close>, in which case \<open>written\<close> is reset to \<open>0\<close> and the same
  range is tried again. Nothing bounds the number of retries, so the loop is a partial
  function: \<open>None\<close> is the run that never returns.
\<close>

partial_function (option) writen_loop ::
  "int \<Rightarrow> addr \<Rightarrow> nat \<Rightarrow> int \<Rightarrow> machine \<Rightarrow> (int \<times> machine) option" where
  "writen_loop d p left written m =
     (if left > 0 then
        (case sys_write d p left m of (w, m') \<Rightarrow>
           if w \<le> 0 \<and> errno m' \<noteq> EINTR then Some (- 1, m')
           else (let written' = (if w \<le> 0 then 0 else w)
                 in writen_loop d (p + nat written') (left - nat written') written' m'))
      else Some (written, m))"

declare writen_loop.simps [code]

definition plcrash_async_writen :: "int \<Rightarrow> addr \<Rightarrow> nat \<Rightarrow> machine \<Rightarrow> (int \<times> machine) option" where
  "plcrash_async_writen d data len m = writen_loop d data len 0 m"

subsection \<open>The writer\<close>

text \<open>
  \<^verbatim>\<open>plcrash_async_file_t\<close> is declared in a header that is not part of the source file. Its
  fields are the ones the functions use; \<open>buffer\<close> is the address of the byte array, whose
  contents live in the memory, and the array's size \<^verbatim>\<open>sizeof(file->buffer)\<close> is the
  parameter \<open>bufsize\<close> of the functions that need it.

  The byte counts are machine integers, as on the 64-bit targets of the library:
  \<open>len\<close>, \<open>buflen\<close> and \<open>bufsize\<close> are \<^verbatim>\<open>size_t\<close>, \<open>total_bytes\<close> and \<open>limit_bytes\<close> are
  \<^verbatim>\<open>off_t\<close>, all of 64 bits. In \<^verbatim>\<open>len + file->total_bytes > file->limit_bytes\<close> the usual
  arithmetic conversions turn the \<^verbatim>\<open>off_t\<close> operands into unsigned 64-bit values, so
  the sum wraps around at \<open>2^64\<close> and the comparison is unsigned, and
  \<^verbatim>\<open>file->total_bytes += len\<close> stores the wrapped sum. An \<^verbatim>\<open>off_t\<close> is therefore kept as
  its 64-bit pattern: a negative limit is the large unsigned value the comparison
  sees. Addition, \<open><\<close> and \<open>\<le>\<close> on words are exactly these operations. The sums with
  \<open>buflen\<close> are \<^verbatim>\<open>size_t\<close> sums and wrap in the same way. \<^verbatim>\<open>plcrash_async_memcpy\<close> and
  \<^verbatim>\<open>plcrash_async_writen\<close> receive a length as its value (\<open>unat\<close>); their loops count
  within it and do not wrap. \<^verbatim>\<open>PLCF_DEBUG\<close> only logs a message and is left out.
\<close>

type_synonym size_t = "64 word"
type_synonym off_t = "64 word"

record plcrash_async_file =
  fd :: int
  limit_bytes :: off_t
  total_bytes :: off_t
  buflen :: size_t
  buffer :: addr

definition plcrash_async_file_init ::
  "plcrash_async_file \<Rightarrow> int \<Rightarrow> off_t \<Rightarrow> plcrash_async_file" where
  "plcrash_async_file_init file d output_limit =
     file\<lparr>fd := d, buflen := 0, total_bytes := 0, limit_bytes := output_limit\<rparr>"

text \<open>
  The second half of \<^verbatim>\<open>plcrash_async_file_write\<close> (``Check if the new data fits within the
  buffer''): buffer the data, or hand it to \<^verbatim>\<open>plcrash_async_writen\<close> directly.
\<close>

definition file_write_data ::
  "size_t \<Rightarrow> plcrash_async_file \<Rightarrow> addr \<Rightarrow> size_t \<Rightarrow> machine \<Rightarrow>
   (bool \<times> plcrash_async_file \<times> machine) option" where
  "file_write_data bufsize file data len m =
     (if len + buflen file \<le> bufsize then
        (case plcrash_async_memcpy (mem m) (buffer file + unat (buflen file)) data (unat len) of
           (_, mem') \<Rightarrow>
             Some (True, file\<lparr>buflen := buflen file + len\<rparr>, m\<lparr>mem := mem'\<rparr>))
      else
        (case plcrash_async_writen (fd file) data (unat len) m of
           None \<Rightarrow> None
         | Some (r, m') \<Rightarrow> if r < 0 then Some (False, file, m') else Some (True, file, m')))"

definition plcrash_async_file_write ::
  "size_t \<Rightarrow> plcrash_async_file \<Rightarrow> addr \<Rightarrow> size_t \<Rightarrow> machine \<Rightarrow>
   (bool \<times> plcrash_async_file \<times> machine) option" where
  "plcrash_async_file_write bufsize file data len m =
     (if limit_bytes file \<noteq> 0 \<and> len + total_bytes file > limit_bytes file then
        Some (False, file, m)
      else
        (let file1 = (if limit_bytes file \<noteq> 0
                      then file\<lparr>total_bytes := total_bytes file + len\<rparr> else file)
         in if buflen file1 + len > bufsize then
              (case plcrash_async_writen (fd file1) (buffer file1) (unat (buflen file1)) m of
                 None \<Rightarrow> None
               | Some (r, m') \<Rightarrow>
                   if r < 0 then Some (False, file1, m')
                   else file_write_data bufsize (file1\<lparr>buflen := 0\<rparr>) data len m')
            else file_write_data bufsize file1 data len m))"

definition plcrash_async_file_flush ::
  "plcrash_async_file \<Rightarrow> machine \<Rightarrow> (bool \<times> plcrash_async_file \<times> machine) option" where
  "plcrash_async_file_flush file m =
     (if buflen file = 0 then Some (True, file, m)
      else
        (case plcrash_async_writen (fd file) (buffer file) (unat (buflen file)) m of
           None \<Rightarrow> None
         | Some (r, m') \<Rightarrow>
             if r < 0 then Some (False, file, m')
             else Some (True, file\<lparr>buflen := 0\<rparr>, m')))"

definition plcrash_async_file_close ::
  "plcrash_async_file \<Rightarrow> machine \<Rightarrow> (bool \<times> plcrash_async_file \<times> machine) option" where
  "plcrash_async_file_close file m =
     (case plcrash_async_file_flush file m of
        None \<Rightarrow> None
      | Some (ok, file', m') \<Rightarrow>
          if \<not> ok then Some (False, file', m')
          else (case sys_close (fd file') m' of
                  (r, m'') \<Rightarrow> if r \<noteq> 0 then Some (False, file', m'')
                               else Some (True, file', m'')))"

subsection \<open>Sequences of calls\<close>

text \<open>
  A caller issues \<^verbatim>\<open>write\<close>, \<^verbatim>\<open>flush\<close> and \<^verbatim>\<open>close\<close> calls one after the other on the same
  writer. \<open>run_ops\<close> threads the writer and the machine through the calls and collects
  what each call returned.
\<close>

datatype file_op = Write addr size_t | Flush | Close

fun apply_op ::
  "size_t \<Rightarrow> file_op \<Rightarrow> plcrash_async_file \<Rightarrow> machine \<Rightarrow>
   (bool \<times> plcrash_async_file \<times> machine) option" where
  "apply_op bufsize (Write data len) file m = plcrash_async_file_write bufsize file data len m"
| "apply_op bufsize Flush file m = plcrash_async_file_flush file m"
| "apply_op bufsize Close file m = plcrash_async_file_close file m"

fun run_ops ::
  "size_t \<Rightarrow> file_op list \<Rightarrow> plcrash_async_file \<Rightarrow> machine \<Rightarrow>
   (bool list \<times> plcrash_async_file \<times> machine) option" where
  "run_ops bufsize [] file m = Some ([], file, m)"
| "run_ops bufsize (x # xs) file m =
     (case apply_op bufsize x file m of
        None \<Rightarrow> None
      | Some (ok, file', m') \<Rightarrow>
          (case run_ops bufsize xs file' m' of
             None \<Rightarrow> None
           | Some (oks, file'', m'') \<Rightarrow> Some (ok # oks, file'', m'')))"

subsection \<open>Byte accounting over a sequence of calls\<close>

text \<open>
  The sums below are sums of natural numbers: they are what the claims compare the
  counters of the writer with. \<open>op_length x\<close> is the length of a \<^verbatim>\<open>write\<close> call (\<open>0\<close> for
  the other calls) and \<open>longest_write ops\<close> the largest length among the calls \<open>ops\<close>.
  \<open>accepted_bytes ops oks\<close> is the sum of the lengths of the \<^verbatim>\<open>write\<close> calls of \<open>ops\<close> that
  returned success, \<open>oks\<close> being what the calls returned. \<open>admitted_bytes limit t ops\<close>
  is the byte count after \<open>ops\<close> when every \<^verbatim>\<open>write\<close> whose length fits under the limit
  is counted, starting from \<open>t\<close>, and \<open>admitted_succeeded limit t ops oks\<close> says that
  each of these writes returned success. \<open>kernel_accepts m\<close> describes a kernel in which
  every \<^verbatim>\<open>write\<close> call takes at least one byte: no error, no interruption.
\<close>

fun op_length :: "file_op \<Rightarrow> nat" where
  "op_length (Write data len) = unat len"
| "op_length Flush = 0"
| "op_length Close = 0"

fun longest_write :: "file_op list \<Rightarrow> nat" where
  "longest_write [] = 0"
| "longest_write (x # ops) = max (op_length x) (longest_write ops)"

fun accepted_bytes :: "file_op list \<Rightarrow> bool list \<Rightarrow> nat" where
  "accepted_bytes (Write data len # ops) (ok # oks) =
     (if ok then unat len else 0) + accepted_bytes ops oks"
| "accepted_bytes (Flush # ops) (ok # oks) = accepted_bytes ops oks"
| "accepted_bytes (Close # ops) (ok # oks) = accepted_bytes ops oks"
| "accepted_bytes [] oks = 0"
| "accepted_bytes ops [] = 0"

fun admitted_bytes :: "nat \<Rightarrow> nat \<Rightarrow> file_op list \<Rightarrow> nat" where
  "admitted_bytes limit t [] = t"
| "admitted_bytes limit t (Write data len # ops) =
     (if unat len + t > limit then admitted_bytes limit t ops
      else admitted_bytes limit (t + unat len) ops)"
| "admitted_bytes limit t (Flush # ops) = admitted_bytes limit t ops"
| "admitted_bytes limit t (Close # ops) = admitted_bytes limit t ops"

fun admitted_succeeded :: "nat \<Rightarrow> nat \<Rightarrow> file_op list \<Rightarrow> bool list \<Rightarrow> bool" where
  "admitted_succeeded limit t (Write data len # ops) (ok # oks) =
     (if unat len + t > limit then admitted_succeeded limit t ops oks
      else ok \<and> admitted_succeeded limit (t + unat len) ops oks)"
| "admitted_succeeded limit t (Flush # ops) (ok # oks) = admitted_succeeded limit t ops oks"
| "admitted_succeeded limit t (Close # ops) (ok # oks) = admitted_succeeded limit t ops oks"
| "admitted_succeeded limit t [] oks = True"
| "admitted_succeeded limit t ops [] = True"

definition kernel_accepts :: "machine \<Rightarrow> bool" where
  "kernel_accepts m = (\<forall>k. \<exists>n>0. write_env m k = Transfer n)"

subsection \<open>Concrete states\<close>

text \<open>
  A machine that has just started, with zeroed memory, nothing delivered yet and a
  kernel that answers \<^verbatim>\<open>write\<close> calls as \<open>env\<close> says; and a writer structure before
  \<^verbatim>\<open>plcrash_async_file_init\<close>. The examples below run on them.
\<close>

abbreviation fresh_machine :: "(nat \<Rightarrow> write_outcome) \<Rightarrow> machine" where
  "fresh_machine env \<equiv>
     \<lparr>mem = (\<lambda>a. 0), errno = 0, delivered = (\<lambda>d. []), closed = [], nwrites = 0,
      write_env = env, close_env = (\<lambda>d. None)\<rparr>"

abbreviation blank_file :: plcrash_async_file where
  "blank_file \<equiv> \<lparr>fd = 0, limit_bytes = 0, total_bytes = 0, buflen = 0, buffer = 0\<rparr>"

section \<open>Properties of the byte primitives\<close>

declare memcpy_loop.simps [simp del]
declare strncmp_loop.simps [simp del]

lemma length_load: "length (load mm p n) = n"
  by (simp add: load_def)

lemma load_0: "load mm p 0 = []"
  by (simp add: load_def)

lemma load_add: "load mm p (a + b) = load mm p a @ load mm (p + a) b"
  by (auto simp: list_eq_iff_nth_eq load_def nth_append add.assoc)

subsection \<open>Copying\<close>

lemma memcpy_loop_outside:
  "a < d \<or> d + (n - count) \<le> a \<Longrightarrow> memcpy_loop mm d s count n a = mm a"
proof (induction mm d s count n rule: memcpy_loop.induct)
  case (1 mm d s count n)
  show ?case
  proof (cases "count < n")
    case True
    with "1.prems" have "a < Suc d \<or> Suc d + (n - Suc count) \<le> a" and "a \<noteq> d"
      by auto
    with True "1.IH"
    have "memcpy_loop (mm(d := mm s)) (Suc d) (Suc s) (Suc count) n a = (mm(d := mm s)) a"
      by blast
    with True \<open>a \<noteq> d\<close> show ?thesis by (subst memcpy_loop.simps) simp
  next
    case False
    then show ?thesis by (subst memcpy_loop.simps) simp
  qed
qed

lemma memcpy_loop_copied:
  "s + (n - count) \<le> d \<or> d + (n - count) \<le> s \<Longrightarrow> i < n - count \<Longrightarrow>
   memcpy_loop mm d s count n (d + i) = mm (s + i)"
proof (induction mm d s count n arbitrary: i rule: memcpy_loop.induct)
  case (1 mm d s count n)
  from "1.prems" have lt: "count < n" by simp
  show ?case
  proof (cases i)
    case 0
    have "memcpy_loop (mm(d := mm s)) (Suc d) (Suc s) (Suc count) n d = (mm(d := mm s)) d"
      by (rule memcpy_loop_outside) simp
    with lt 0 show ?thesis by (subst memcpy_loop.simps) simp
  next
    case (Suc j)
    from "1.prems" Suc
    have dj: "Suc s + (n - Suc count) \<le> Suc d \<or> Suc d + (n - Suc count) \<le> Suc s"
      and j: "j < n - Suc count" and ne: "Suc s + j \<noteq> d"
      by auto
    have "memcpy_loop (mm(d := mm s)) (Suc d) (Suc s) (Suc count) n (Suc d + j)
          = (mm(d := mm s)) (Suc s + j)"
      using lt dj j by (rule "1.IH")
    with lt Suc ne show ?thesis by (subst memcpy_loop.simps) simp
  qed
qed

lemma memcpy_loop_nothing: "memcpy_loop mm d s count count = mm"
  by (subst memcpy_loop.simps) simp

text \<open>
  Claim C8. When the ranges \<open>dest[0..n)\<close> and \<open>source[0..n)\<close> do not overlap, after
  \<open>plcrash_async_memcpy dest source n\<close> the bytes \<open>dest[0..n)\<close> are the bytes that
  \<open>source[0..n)\<close> held, the source range still holds them, every byte outside
  \<open>dest[0..n)\<close> is untouched, and the pointer returned is \<open>source\<close>, not \<open>dest\<close>.
\<close>

theorem memcpy_copies_and_returns_source:
  "dest + n \<le> source \<or> source + n \<le> dest \<Longrightarrow>
   (case plcrash_async_memcpy mm dest source n of
      (r, mm') \<Rightarrow>
        load mm' dest n = load mm source n \<and>
        load mm' source n = load mm source n \<and>
        (\<forall>a. a < dest \<or> dest + n \<le> a \<longrightarrow> mm' a = mm a) \<and>
        r = source)"
  by (auto simp: plcrash_async_memcpy_def load_def memcpy_loop_copied memcpy_loop_outside)

theorem memcpy_copies_and_returns_source_witness:
  "((20::nat) + 3 \<le> 10 \<or> (10::nat) + 3 \<le> 20) \<and>
   load (snd (plcrash_async_memcpy (\<lambda>a. word_of_nat a) 20 10 3)) 20 3 = [10, 11, 12] \<and>
   fst (plcrash_async_memcpy (\<lambda>a. word_of_nat a) 20 10 3) = 10"
  using memcpy_copies_and_returns_source [of 20 3 10 "\<lambda>a. word_of_nat a"]
  by (simp add: load_def split_beta upt_rec)

subsection \<open>Bounded comparison\<close>

lemma find_map: "find P (map f xs) = map_option f (find (P \<circ> f) xs)"
  by (induction xs) auto

lemma bounded_compare_0: "bounded_compare mm s1 s2 0 = 0"
  by (simp add: bounded_compare_def)

lemma bounded_compare_Suc:
  "bounded_compare mm s1 s2 (Suc k) =
     (if stops mm s1 s2 0 then byte_diff mm s1 s2 0
      else bounded_compare mm (Suc s1) (Suc s2) k)"
proof -
  have upt: "[0..<Suc k] = 0 # map Suc [0..<k]"
    by (simp add: upt_conv_Cons map_Suc_upt del: upt_Suc)
  have sh: "stops mm s1 s2 \<circ> Suc = stops mm (Suc s1) (Suc s2)"
    by (rule ext) (simp add: stops_def)
  show ?thesis
    unfolding bounded_compare_def upt
    by (simp add: find_map sh byte_diff_def split: option.split)
qed

lemma strncmp_loop_eq:
  "strncmp_loop mm s1 s2 n = bounded_compare mm s1 s2 (unat n)"
proof (induction mm s1 s2 n rule: strncmp_loop.induct)
  case (1 mm s1 s2 n)
  show ?case
  proof (cases "n = 0")
    case True
    then show ?thesis
      by (subst strncmp_loop.simps)
         (simp add: bounded_compare_0 strncmp_exit_def)
  next
    case False
    then obtain k where k: "unat n = Suc k" and k1: "unat (n - 1) = k"
      by (metis Suc_pred' unat_gt_0 unat_minus_one)
    from False have pos: "n > 0" by (simp add: word_greater_zero_iff)
    show ?thesis
    proof (cases "mm s1 = mm s2 \<and> mm s1 \<noteq> 0")
      case True
      with pos "1.IH" k1 have "strncmp_loop mm (Suc s1) (Suc s2) (n - 1)
          = bounded_compare mm (Suc s1) (Suc s2) k" by auto
      moreover from True have "mm s1 = mm s2" and "mm s2 \<noteq> 0" by auto
      ultimately show ?thesis using pos k
        by (subst strncmp_loop.simps) (simp add: bounded_compare_Suc stops_def)
    next
      case False
      with pos \<open>n \<noteq> 0\<close> k show ?thesis
        by (subst strncmp_loop.simps)
           (auto simp add: bounded_compare_Suc stops_def strncmp_exit_def byte_diff_def)
    qed
  qed
qed

lemma find_upt_first:
  "i < n \<Longrightarrow> P i \<Longrightarrow> (\<forall>j<i. \<not> P j) \<Longrightarrow> find P [0..<n] = Some i"
  by (simp add: find_Some_iff) (rule exI [of _ i], simp)

lemma find_upt_none: "(\<forall>j<n. \<not> P j) \<Longrightarrow> find P [0..<n] = None"
  by (simp add: find_None_iff)

text \<open>
  Claim C7. \<open>plcrash_async_strncmp s1 s2 n\<close> scans the two byte sequences from the front.
  If position \<open>i < n\<close> is the first where the bytes differ, with no terminator before it,
  the result is the difference of the two bytes there, both read as unsigned. If it is
  the first where both hold the terminator, the result is \<open>0\<close>. If the first \<open>n\<close>
  positions agree and hold no terminator, the budget runs out and the result is \<open>0\<close>.
  The witness compares \<^verbatim>\<open>"abc"\<close> with \<^verbatim>\<open>"abd"\<close> for \<open>n = 3\<close>: the result is \<open>-1\<close>, negative
  as \<^verbatim>\<open>'c' < 'd'\<close>; \<^verbatim>\<open>"abc"\<close> with itself for \<open>n = 9\<close>, and \<^verbatim>\<open>"abc"\<close> with \<^verbatim>\<open>"abd"\<close> for
  \<open>n = 2\<close>: both \<open>0\<close>.
\<close>

theorem strncmp_first_difference:
  "((\<forall>j<i. mm (s1 + j) = mm (s2 + j) \<and> mm (s1 + j) \<noteq> 0) \<and> i < unat n \<and>
      mm (s1 + i) \<noteq> mm (s2 + i) \<longrightarrow>
      plcrash_async_strncmp mm s1 s2 n = int (unat (mm (s1 + i))) - int (unat (mm (s2 + i)))) \<and>
   ((\<forall>j<i. mm (s1 + j) = mm (s2 + j) \<and> mm (s1 + j) \<noteq> 0) \<and> i < unat n \<and>
      mm (s1 + i) = 0 \<and> mm (s2 + i) = 0 \<longrightarrow>
      plcrash_async_strncmp mm s1 s2 n = 0) \<and>
   ((\<forall>j<unat n. mm (s1 + j) = mm (s2 + j) \<and> mm (s1 + j) \<noteq> 0) \<longrightarrow>
      plcrash_async_strncmp mm s1 s2 n = 0)"
proof (intro conjI impI)
  assume a: "(\<forall>j<i. mm (s1 + j) = mm (s2 + j) \<and> mm (s1 + j) \<noteq> 0) \<and> i < unat n \<and>
      mm (s1 + i) \<noteq> mm (s2 + i)"
  then have "find (stops mm s1 s2) [0..<unat n] = Some i"
    by (intro find_upt_first) (auto simp: stops_def)
  then show "plcrash_async_strncmp mm s1 s2 n
      = int (unat (mm (s1 + i))) - int (unat (mm (s2 + i)))"
    by (simp add: plcrash_async_strncmp_def strncmp_loop_eq bounded_compare_def byte_diff_def)
next
  assume a: "(\<forall>j<i. mm (s1 + j) = mm (s2 + j) \<and> mm (s1 + j) \<noteq> 0) \<and> i < unat n \<and>
      mm (s1 + i) = 0 \<and> mm (s2 + i) = 0"
  then have "find (stops mm s1 s2) [0..<unat n] = Some i"
    by (intro find_upt_first) (auto simp: stops_def)
  with a show "plcrash_async_strncmp mm s1 s2 n = 0"
    by (simp add: plcrash_async_strncmp_def strncmp_loop_eq bounded_compare_def byte_diff_def)
next
  assume "\<forall>j<unat n. mm (s1 + j) = mm (s2 + j) \<and> mm (s1 + j) \<noteq> 0"
  then have "find (stops mm s1 s2) [0..<unat n] = None"
    by (intro find_upt_none) (auto simp: stops_def)
  then show "plcrash_async_strncmp mm s1 s2 n = 0"
    by (simp add: plcrash_async_strncmp_def strncmp_loop_eq bounded_compare_def)
qed

theorem strncmp_first_difference_witness:
  "plcrash_async_strncmp (\<lambda>a. [97, 98, 99, 0, 97, 98, 100, 0] ! a) 0 4 (3 :: 64 word) = - 1 \<and>
   plcrash_async_strncmp (\<lambda>a. [97, 98, 99, 0, 97, 98, 99, 0] ! a) 0 4 (9 :: 64 word) = 0 \<and>
   plcrash_async_strncmp (\<lambda>a. [97, 98, 99, 0, 97, 98, 100, 0] ! a) 0 4 (2 :: 64 word) = 0"
proof -
  let ?abd = "\<lambda>a. [97, 98, 99, 0, 97, 98, 100, 0 :: byte] ! a"
  let ?abc = "\<lambda>a. [97, 98, 99, 0, 97, 98, 99, 0 :: byte] ! a"
  have pre2: "\<forall>j<2. ?abd (0 + j) = ?abd (4 + j) \<and> ?abd (0 + j) \<noteq> 0"
    by (auto dest!: less_2_cases)
  have pre3: "\<forall>j<3. ?abc (0 + j) = ?abc (4 + j) \<and> ?abc (0 + j) \<noteq> 0"
    by (auto simp: less_Suc_eq numeral_3_eq_3)
  have n3: "(2::nat) < unat (3 :: 64 word)" and n9: "(3::nat) < unat (9 :: 64 word)"
    and n2: "unat (2 :: 64 word) = 2"
    by simp_all
  have d: "?abd (0 + 2) \<noteq> ?abd (4 + 2)" and z: "?abc (0 + 3) = 0 \<and> ?abc (4 + 3) = 0"
    by simp_all
  from strncmp_first_difference [of 2 ?abd 0 4 "3 :: 64 word"] pre2 n3 d
  have "plcrash_async_strncmp ?abd 0 4 (3 :: 64 word)
        = int (unat (?abd (0 + 2))) - int (unat (?abd (4 + 2)))"
    by blast
  then have a: "plcrash_async_strncmp ?abd 0 4 (3 :: 64 word) = - 1" by simp
  from strncmp_first_difference [of 3 ?abc 0 4 "9 :: 64 word"] pre3 n9 z
  have b: "plcrash_async_strncmp ?abc 0 4 (9 :: 64 word) = 0"
    by blast
  have pre2n: "\<forall>j<unat (2 :: 64 word). ?abd (0 + j) = ?abd (4 + j) \<and> ?abd (0 + j) \<noteq> 0"
    unfolding n2 by (rule pre2)
  from strncmp_first_difference [of 0 ?abd 0 4 "2 :: 64 word"] pre2n
  have c: "plcrash_async_strncmp ?abd 0 4 (2 :: 64 word) = 0"
    by blast
  from a b c show ?thesis by blast
qed

section \<open>Properties of the raw write loop\<close>

lemma sys_write_effect:
  assumes "sys_write d p left m = (w, m')"
  shows "mem m' = mem m" and "write_env m' = write_env m" and "close_env m' = close_env m"
    and "closed m' = closed m" and "nwrites m' = Suc (nwrites m)"
    and "d' \<noteq> d \<Longrightarrow> delivered m' d' = delivered m d'"
    and "- 1 \<le> w" and "w \<le> int left"
    and "delivered m' d = delivered m d @ load (mem m) p (nat w)"
  using assms
  by (auto simp: sys_write_def load_0 split: write_outcome.splits)

lemma writen_loop_effect:
  assumes "writen_loop d p left w0 m = Some y"
  shows "mem (snd y) = mem m \<and> write_env (snd y) = write_env m \<and>
         close_env (snd y) = close_env m \<and> closed (snd y) = closed m \<and>
         nwrites m \<le> nwrites (snd y) \<and>
         (\<forall>d'. d' \<noteq> d \<longrightarrow> delivered (snd y) d' = delivered m d') \<and>
         (\<exists>k\<le>left. delivered (snd y) d = delivered m d @ load (mem m) p k \<and>
                   (0 \<le> fst y \<longrightarrow> k = left)) \<and>
         (left = 0 \<longrightarrow> y = (w0, m))"
proof -
  let ?P = "\<lambda>d p left w0 m y.
         mem (snd y) = mem m \<and> write_env (snd y) = write_env m \<and>
         close_env (snd y) = close_env m \<and> closed (snd y) = closed m \<and>
         nwrites m \<le> nwrites (snd y) \<and>
         (\<forall>d'. d' \<noteq> d \<longrightarrow> delivered (snd y) d' = delivered m d') \<and>
         (\<exists>k\<le>left. delivered (snd y) d = delivered m d @ load (mem m) p k \<and>
                   (0 \<le> fst y \<longrightarrow> k = left)) \<and>
         (left = 0 \<longrightarrow> y = (w0, m))"
  have "?P d p left w0 m y"
  proof (rule writen_loop.raw_induct [where P = ?P, OF _ assms], goal_cases)
    case (1 loop d p left w0 m y)
    note IH = "1"(1) and body = "1"(2)
    show ?case
    proof (cases "0 < left")
      case False
      with body have "y = (w0, m)" by simp
      with False show ?thesis by (simp add: load_0)
    next
      case True
      obtain w m1 where sw: "sys_write d p left m = (w, m1)"
        by (cases "sys_write d p left m")
      note eff = sys_write_effect [OF sw]
      show ?thesis
      proof (cases "w \<le> 0 \<and> errno m1 \<noteq> EINTR")
        case fail: True
        with True sw body have y: "y = (- 1, m1)" by simp
        from fail eff(7) have "nat w = 0" by simp
        with eff y True show ?thesis by (auto simp: load_0)
      next
        case False
        define w' where "w' = (if w \<le> 0 then 0 else w)"
        from False True sw body
        have rec: "loop d (p + nat w') (left - nat w') w' m1 = Some y"
          by (auto simp: w'_def Let_def split: if_splits)
        have nw: "nat w' = nat w" by (simp add: w'_def)
        from eff(8) have le: "nat w \<le> left" by simp
        from IH [OF rec] eff(1-5)
        obtain k where k: "k \<le> left - nat w"
          and dk: "delivered (snd y) d = delivered m1 d @ load (mem m) (p + nat w) k"
          and full: "0 \<le> fst y \<longrightarrow> k = left - nat w"
          and rest: "mem (snd y) = mem m" "write_env (snd y) = write_env m"
            "close_env (snd y) = close_env m" "closed (snd y) = closed m"
            "nwrites m \<le> nwrites (snd y)"
            "\<forall>d'. d' \<noteq> d \<longrightarrow> delivered (snd y) d' = delivered m1 d'"
          by (auto simp: nw)
        have "delivered (snd y) d = delivered m d @ load (mem m) p (nat w + k)"
          by (simp add: dk eff(9) load_add)
        moreover have "nat w + k \<le> left" using k le by simp
        moreover have "0 \<le> fst y \<longrightarrow> nat w + k = left" using full le by simp
        ultimately show ?thesis using rest eff(6) True by auto
      qed
    qed
  qed
  then show ?thesis .
qed

lemma writen_effect:
  assumes "plcrash_async_writen d p len m = Some (r, m')"
  shows "mem m' = mem m" and "write_env m' = write_env m" and "close_env m' = close_env m"
    and "closed m' = closed m" and "nwrites m \<le> nwrites m'"
    and "d' \<noteq> d \<Longrightarrow> delivered m' d' = delivered m d'"
    and "\<exists>k\<le>len. delivered m' d = delivered m d @ load (mem m) p k \<and> (0 \<le> r \<longrightarrow> k = len)"
  using writen_loop_effect [of d p len 0 m "(r, m')"] assms
  by (simp_all add: plcrash_async_writen_def)

lemma writen_nothing: "plcrash_async_writen d p 0 m = Some (0, m)"
  by (simp add: plcrash_async_writen_def writen_loop.simps)

lemma writen_count:
  assumes "plcrash_async_writen d p len m = Some (r, m')"
  shows "length (delivered m d) \<le> length (delivered m' d)"
    and "length (delivered m' d) \<le> length (delivered m d) + len"
    and "0 \<le> r \<Longrightarrow> length (delivered m' d) = length (delivered m d) + len"
  using writen_effect(7) [OF assms] by (auto simp: length_load)

lemma writen_loop_returns:
  "kernel_accepts m \<Longrightarrow> 0 \<le> w0 \<Longrightarrow>
   \<exists>r m'. writen_loop d p left w0 m = Some (r, m') \<and> 0 \<le> r"
proof (induction left arbitrary: p w0 m rule: less_induct)
  case (less left)
  show ?case
  proof (cases "0 < left")
    case False
    with less.prems show ?thesis by (subst writen_loop.simps) simp
  next
    case True
    from less.prems(1) obtain n where n: "0 < n" "write_env m (nwrites m) = Transfer n"
      by (auto simp: kernel_accepts_def)
    define m1 where "m1 = snd (sys_write d p left m)"
    have sw: "sys_write d p left m = (int (min n left), m1)"
      by (simp add: m1_def sys_write_def n)
    from sys_write_effect(2) [OF sw] less.prems(1) have k1: "kernel_accepts m1"
      by (simp add: kernel_accepts_def)
    from n True have pos: "0 < min n left" by simp
    then have "left - min n left < left" using True by simp
    from less.IH [OF this k1, of "int (min n left)" "p + min n left"]
    obtain r m' where "writen_loop d (p + min n left) (left - min n left) (int (min n left)) m1
        = Some (r, m')" "0 \<le> r"
      by auto
    moreover from pos have "\<not> int (min n left) \<le> 0" by linarith
    ultimately show ?thesis using True sw
      by (subst writen_loop.simps) (simp del: min_less_iff_conj of_nat_min)
  qed
qed

lemma writen_returns:
  "kernel_accepts m \<Longrightarrow> \<exists>r m'. plcrash_async_writen d p len m = Some (r, m') \<and> 0 \<le> r"
  unfolding plcrash_async_writen_def by (rule writen_loop_returns) simp_all

section \<open>The paths through the writer\<close>

lemma file_write_data_cases:
  assumes "file_write_data bufsize f data len m = Some (ok, f', m')"
  obtains
    (buffered) "len + buflen f \<le> bufsize" "ok" "f' = f\<lparr>buflen := buflen f + len\<rparr>"
      "m' = m\<lparr>mem := memcpy_loop (mem m) (buffer f + unat (buflen f)) data 0 (unat len)\<rparr>"
  | (direct) r where "bufsize < len + buflen f"
      "plcrash_async_writen (fd f) data (unat len) m = Some (r, m')" "ok = (0 \<le> r)" "f' = f"
proof (cases "len + buflen f \<le> bufsize")
  case True
  with assms have "ok \<and> f' = f\<lparr>buflen := buflen f + len\<rparr> \<and>
      m' = m\<lparr>mem := memcpy_loop (mem m) (buffer f + unat (buflen f)) data 0 (unat len)\<rparr>"
    by (simp add: file_write_data_def plcrash_async_memcpy_def)
  with True show ?thesis by (intro buffered) simp_all
next
  case False
  then have lt: "bufsize < len + buflen f" by (simp add: not_le)
  from assms False obtain r where
    "plcrash_async_writen (fd f) data (unat len) m = Some (r, m')" "ok = (0 \<le> r)" "f' = f"
    by (auto simp: file_write_data_def split: option.splits if_splits)
  with lt show ?thesis by (intro direct [of r]) simp_all
qed

lemma file_write_admitted:
  assumes "\<not> (limit_bytes f \<noteq> 0 \<and> limit_bytes f < len + total_bytes f)"
  shows "plcrash_async_file_write bufsize f data len m =
     (if bufsize < buflen f + len then
        (case plcrash_async_writen (fd f) (buffer f) (unat (buflen f)) m of
           None \<Rightarrow> None
         | Some (r, m') \<Rightarrow>
             if r < 0
             then Some (False,
               f\<lparr>total_bytes := total_bytes f + (if limit_bytes f \<noteq> 0 then len else 0)\<rparr>, m')
             else file_write_data bufsize
               (f\<lparr>total_bytes := total_bytes f + (if limit_bytes f \<noteq> 0 then len else 0),
                  buflen := 0\<rparr>) data len m')
      else file_write_data bufsize
        (f\<lparr>total_bytes := total_bytes f + (if limit_bytes f \<noteq> 0 then len else 0)\<rparr>)
        data len m)"
proof (cases "limit_bytes f = 0")
  case True
  then show ?thesis
    by (simp add: plcrash_async_file_write_def Let_def cong: option.case_cong if_cong)
next
  case False
  with assms show ?thesis
    by (simp add: plcrash_async_file_write_def Let_def cong: option.case_cong if_cong)
qed

lemma file_write_cases:
  assumes "plcrash_async_file_write bufsize f data len m = Some (ok, f', m')"
  obtains
    (rejected) "limit_bytes f \<noteq> 0" "limit_bytes f < len + total_bytes f"
      "\<not> ok" "f' = f" "m' = m"
  | (buffered) "\<not> (limit_bytes f \<noteq> 0 \<and> limit_bytes f < len + total_bytes f)"
      "buflen f + len \<le> bufsize" "ok"
      "f' = f\<lparr>total_bytes := total_bytes f + (if limit_bytes f \<noteq> 0 then len else 0),
               buflen := buflen f + len\<rparr>"
      "m' = m\<lparr>mem := memcpy_loop (mem m) (buffer f + unat (buflen f)) data 0 (unat len)\<rparr>"
  | (flush_failed) r where
      "\<not> (limit_bytes f \<noteq> 0 \<and> limit_bytes f < len + total_bytes f)"
      "bufsize < buflen f + len"
      "plcrash_async_writen (fd f) (buffer f) (unat (buflen f)) m = Some (r, m')" "r < 0"
      "\<not> ok"
      "f' = f\<lparr>total_bytes := total_bytes f + (if limit_bytes f \<noteq> 0 then len else 0)\<rparr>"
  | (flushed_buffered) r m1 where
      "\<not> (limit_bytes f \<noteq> 0 \<and> limit_bytes f < len + total_bytes f)"
      "bufsize < buflen f + len"
      "plcrash_async_writen (fd f) (buffer f) (unat (buflen f)) m = Some (r, m1)" "0 \<le> r"
      "len \<le> bufsize" "ok"
      "f' = f\<lparr>total_bytes := total_bytes f + (if limit_bytes f \<noteq> 0 then len else 0),
               buflen := len\<rparr>"
      "m' = m1\<lparr>mem := memcpy_loop (mem m1) (buffer f) data 0 (unat len)\<rparr>"
  | (flushed_direct) r m1 r2 where
      "\<not> (limit_bytes f \<noteq> 0 \<and> limit_bytes f < len + total_bytes f)"
      "bufsize < buflen f + len"
      "plcrash_async_writen (fd f) (buffer f) (unat (buflen f)) m = Some (r, m1)" "0 \<le> r"
      "bufsize < len"
      "plcrash_async_writen (fd f) data (unat len) m1 = Some (r2, m')" "ok = (0 \<le> r2)"
      "f' = f\<lparr>total_bytes := total_bytes f + (if limit_bytes f \<noteq> 0 then len else 0),
               buflen := 0\<rparr>"
proof (cases "limit_bytes f \<noteq> 0 \<and> limit_bytes f < len + total_bytes f")
  case True
  with assms have "\<not> ok \<and> f' = f \<and> m' = m"
    by (simp add: plcrash_async_file_write_def)
  with True show ?thesis by (intro rejected) auto
next
  case ok: False
  define f1 where
    "f1 = f\<lparr>total_bytes := total_bytes f + (if limit_bytes f \<noteq> 0 then len else 0)\<rparr>"
  have f1: "(if limit_bytes f \<noteq> 0 then f\<lparr>total_bytes := total_bytes f + len\<rparr> else f) = f1"
    by (simp add: f1_def)
  show ?thesis
  proof (cases "bufsize < buflen f + len")
    case False
    with assms file_write_admitted [OF ok, of bufsize data m]
    have "file_write_data bufsize f1 data len m = Some (ok, f', m')"
      by (simp add: f1_def)
    then show ?thesis
    proof (cases rule: file_write_data_cases)
      case buffered
      with False ok show ?thesis by (intro that(2)) (auto simp: f1_def add.commute)
    next
      case (direct r)
      with False show ?thesis by (simp add: f1_def add.commute)
    qed
  next
    case True
    with assms file_write_admitted [OF ok, of bufsize data m] obtain r m1 where
      w: "plcrash_async_writen (fd f) (buffer f) (unat (buflen f)) m = Some (r, m1)" and
      rest: "if r < 0 then (ok, f', m') = (False, f1, m1)
             else file_write_data bufsize (f1\<lparr>buflen := 0\<rparr>) data len m1 = Some (ok, f', m')"
      by (auto simp: f1_def split: option.splits if_splits)
    show ?thesis
    proof (cases "r < 0")
      case neg: True
      with rest w ok True show ?thesis
        by (intro flush_failed [of r]) (auto simp: f1_def)
    next
      case False
      with rest have "file_write_data bufsize (f1\<lparr>buflen := 0\<rparr>) data len m1 = Some (ok, f', m')"
        by simp
      then show ?thesis
      proof (cases rule: file_write_data_cases)
        case buffered
        with w ok True False show ?thesis
          by (intro flushed_buffered [of r m1]) (auto simp: f1_def)
      next
        case (direct r2)
        with w ok True False show ?thesis
          by (intro flushed_direct [of r m1 r2]) (auto simp: f1_def)
      qed
    qed
  qed
qed

lemma file_flush_cases:
  assumes "plcrash_async_file_flush f m = Some (ok, f', m')"
  obtains
    (empty) "buflen f = 0" "ok" "f' = f" "m' = m"
  | (failed) r where "buflen f \<noteq> 0"
      "plcrash_async_writen (fd f) (buffer f) (unat (buflen f)) m = Some (r, m')" "r < 0"
      "\<not> ok" "f' = f"
  | (flushed) r where "buflen f \<noteq> 0"
      "plcrash_async_writen (fd f) (buffer f) (unat (buflen f)) m = Some (r, m')" "0 \<le> r"
      "ok" "f' = f\<lparr>buflen := 0\<rparr>"
  using assms
  by (auto simp: plcrash_async_file_flush_def split: if_splits option.splits)

lemma sys_close_effect:
  assumes "sys_close d m = (r, m')"
  shows "mem m' = mem m" and "write_env m' = write_env m" and "close_env m' = close_env m"
    and "delivered m' = delivered m" and "nwrites m' = nwrites m"
  using assms by (auto simp: sys_close_def split: option.splits)

lemma file_close_cases:
  assumes "plcrash_async_file_close f m = Some (ok, f', m')"
  obtains
    (flush_failed) "plcrash_async_file_flush f m = Some (False, f', m')" "\<not> ok"
  | (closed) m1 r where "plcrash_async_file_flush f m = Some (True, f', m1)"
      "sys_close (fd f') m1 = (r, m')" "ok = (r = 0)"
  using assms
  by (auto simp: plcrash_async_file_close_def split: if_splits option.splits prod.splits)

section \<open>What one call does to the counters\<close>

lemma kernel_accepts_cong: "write_env m' = write_env m \<Longrightarrow> kernel_accepts m' = kernel_accepts m"
  by (simp add: kernel_accepts_def)

lemma writen_kernel_accepts:
  assumes "kernel_accepts m" and "plcrash_async_writen d p len m = Some (r, m')"
  shows "0 \<le> r" and "kernel_accepts m'"
proof -
  from writen_returns [OF assms(1), of d p len] assms(2) show "0 \<le> r" by auto
  from writen_effect(2) [OF assms(2)] assms(1) show "kernel_accepts m'"
    by (simp add: kernel_accepts_def)
qed

lemma unat_sum: "unat (x :: 64 word) + unat y < 2 ^ 64 \<Longrightarrow> unat (x + y) = unat x + unat y"
  using unat_add_lem [of x y] by simp

lemma file_write_frame:
  assumes "plcrash_async_file_write bufsize f data len m = Some (ok, f', m')"
  shows "fd f' = fd f \<and> limit_bytes f' = limit_bytes f \<and> buffer f' = buffer f \<and>
     write_env m' = write_env m \<and>
     total_bytes f' =
       (if limit_bytes f \<noteq> 0 \<and> \<not> limit_bytes f < len + total_bytes f
        then total_bytes f + len else total_bytes f) \<and>
     (ok \<longrightarrow> \<not> (limit_bytes f \<noteq> 0 \<and> limit_bytes f < len + total_bytes f)) \<and>
     (buflen f \<le> bufsize \<longrightarrow> buflen f' \<le> bufsize) \<and>
     (kernel_accepts m \<longrightarrow>
        ok = (\<not> (limit_bytes f \<noteq> 0 \<and> limit_bytes f < len + total_bytes f)))"
  using assms
proof (cases rule: file_write_cases)
  case rejected
  then show ?thesis by auto
next
  case buffered
  then show ?thesis by auto
next
  case (flush_failed r)
  from writen_effect(2) [OF flush_failed(3)]
    writen_kernel_accepts(1) [OF _ flush_failed(3)] flush_failed
  show ?thesis by auto
next
  case (flushed_buffered r m1)
  from writen_effect(2) [OF flushed_buffered(3)] flushed_buffered
  show ?thesis by auto
next
  case (flushed_direct r m1 r2)
  note w1 = flushed_direct(3) and w2 = flushed_direct(6)
  from writen_effect(2) [OF w1] writen_effect(2) [OF w2]
  have env: "write_env m' = write_env m" by simp
  have k: "kernel_accepts m \<Longrightarrow> 0 \<le> r2"
    using writen_kernel_accepts(2) [OF _ w1] writen_kernel_accepts(1) [OF _ w2] by blast
  from env k flushed_direct show ?thesis by auto
qed

lemma file_write_count:
  assumes "plcrash_async_file_write bufsize f data len m = Some (ok, f', m')"
    and "unat (buflen f) + unat len < 2 ^ 64"
  shows "length (delivered m (fd f)) + unat (buflen f)
           \<le> length (delivered m' (fd f')) + unat (buflen f') \<and>
     (ok \<longrightarrow> length (delivered m' (fd f')) + unat (buflen f')
                 = length (delivered m (fd f)) + unat (buflen f) + unat len)"
  using assms(1)
proof (cases rule: file_write_cases)
  case rejected
  then show ?thesis by auto
next
  case buffered
  with unat_sum [OF assms(2)] show ?thesis by auto
next
  case (flush_failed r)
  from writen_count(1) [OF flush_failed(3)] flush_failed
  show ?thesis by auto
next
  case (flushed_buffered r m1)
  from writen_count(3) [OF flushed_buffered(3)] flushed_buffered
  show ?thesis by auto
next
  case (flushed_direct r m1 r2)
  note w1 = flushed_direct(3) and w2 = flushed_direct(6)
  from writen_count(3) [OF w1] flushed_direct(4)
  have c1: "length (delivered m1 (fd f)) = length (delivered m (fd f)) + unat (buflen f)"
    by simp
  note c2 = writen_count(1,3) [OF w2]
  from c1 c2 flushed_direct show ?thesis by auto
qed

lemma file_flush_step:
  assumes "plcrash_async_file_flush f m = Some (ok, f', m')"
  shows "fd f' = fd f \<and> limit_bytes f' = limit_bytes f \<and> buffer f' = buffer f \<and>
     write_env m' = write_env m \<and> total_bytes f' = total_bytes f \<and>
     buflen f' \<le> buflen f \<and>
     length (delivered m (fd f)) + unat (buflen f)
       \<le> length (delivered m' (fd f')) + unat (buflen f') \<and>
     (ok \<longrightarrow> length (delivered m' (fd f')) + unat (buflen f')
                 = length (delivered m (fd f)) + unat (buflen f)) \<and>
     (ok \<longrightarrow> buflen f' = 0) \<and>
     (kernel_accepts m \<longrightarrow> ok)"
  using assms
proof (cases rule: file_flush_cases)
  case empty
  then show ?thesis by auto
next
  case (failed r)
  from writen_effect(2) [OF failed(2)] writen_count(1) [OF failed(2)]
    writen_kernel_accepts(1) [OF _ failed(2)] failed
  show ?thesis by auto
next
  case (flushed r)
  from writen_effect(2) [OF flushed(2)] writen_count(3) [OF flushed(2)] flushed
  show ?thesis by auto
qed

lemma file_close_step:
  assumes "plcrash_async_file_close f m = Some (ok, f', m')"
  shows "fd f' = fd f \<and> limit_bytes f' = limit_bytes f \<and> buffer f' = buffer f \<and>
     write_env m' = write_env m \<and> total_bytes f' = total_bytes f \<and>
     buflen f' \<le> buflen f \<and>
     length (delivered m (fd f)) + unat (buflen f)
       \<le> length (delivered m' (fd f')) + unat (buflen f') \<and>
     (ok \<longrightarrow> length (delivered m' (fd f')) + unat (buflen f')
                 = length (delivered m (fd f)) + unat (buflen f)) \<and>
     (ok \<longrightarrow> buflen f' = 0)"
  using assms
proof (cases rule: file_close_cases)
  case flush_failed
  from file_flush_step [OF flush_failed(1)] flush_failed(2) show ?thesis by auto
next
  case (closed m1 r)
  from file_flush_step [OF closed(1)] sys_close_effect [OF closed(2)] show ?thesis by auto
qed

section \<open>Sequences of calls\<close>

lemma apply_op_frame:
  assumes "apply_op bufsize x f m = Some (ok, f', m')"
  shows "fd f' = fd f \<and> limit_bytes f' = limit_bytes f \<and> buffer f' = buffer f \<and>
    write_env m' = write_env m \<and>
    (buflen f \<le> bufsize \<longrightarrow> buflen f' \<le> bufsize) \<and>
    (limit_bytes f = 0 \<longrightarrow> total_bytes f' = total_bytes f) \<and>
    (total_bytes f \<le> limit_bytes f \<longrightarrow> total_bytes f' \<le> limit_bytes f)"
proof (cases x)
  case (Write data len)
  with assms have "plcrash_async_file_write bufsize f data len m = Some (ok, f', m')"
    by simp
  from file_write_frame [OF this] show ?thesis by (auto simp: not_less add.commute)
next
  case Flush
  with assms have "plcrash_async_file_flush f m = Some (ok, f', m')" by simp
  from file_flush_step [OF this] show ?thesis by auto
next
  case Close
  with assms have "plcrash_async_file_close f m = Some (ok, f', m')" by simp
  from file_close_step [OF this] show ?thesis by auto
qed

lemma apply_op_count:
  assumes "apply_op bufsize x f m = Some (ok, f', m')"
    and "unat (buflen f) + op_length x < 2 ^ 64"
  shows "length (delivered m (fd f)) + unat (buflen f) + accepted_bytes [x] [ok]
           \<le> length (delivered m' (fd f')) + unat (buflen f') \<and>
    (ok \<longrightarrow> length (delivered m' (fd f')) + unat (buflen f')
                 = length (delivered m (fd f)) + unat (buflen f) + accepted_bytes [x] [ok])"
proof (cases x)
  case (Write data len)
  with assms have w: "plcrash_async_file_write bufsize f data len m = Some (ok, f', m')"
    and n: "unat (buflen f) + unat len < 2 ^ 64"
    by simp_all
  from file_write_count [OF w n] Write show ?thesis by (cases ok) auto
next
  case Flush
  with assms have "plcrash_async_file_flush f m = Some (ok, f', m')" by simp
  from file_flush_step [OF this] Flush show ?thesis by auto
next
  case Close
  with assms have "plcrash_async_file_close f m = Some (ok, f', m')" by simp
  from file_close_step [OF this] Close show ?thesis by auto
qed

lemma limit_check_nat:
  fixes len t limit :: "64 word"
  assumes "unat t + unat len < 2 ^ 64"
  shows "(limit < len + t) = (unat limit < unat len + unat t)"
proof -
  from assms have "unat (len + t) = unat len + unat t"
    by (simp add: unat_sum add.commute)
  then show ?thesis by (simp add: word_less_nat_alt)
qed

lemma apply_op_total:
  assumes "apply_op bufsize x f m = Some (ok, f', m')"
    and "unat (total_bytes f) + op_length x < 2 ^ 64"
  shows "total_bytes f \<le> total_bytes f' \<and>
    (limit_bytes f \<noteq> 0 \<longrightarrow>
       unat (total_bytes f')
         = admitted_bytes (unat (limit_bytes f)) (unat (total_bytes f)) [x] \<and>
       unat (total_bytes f) + accepted_bytes [x] [ok] \<le> unat (total_bytes f') \<and>
       (admitted_succeeded (unat (limit_bytes f)) (unat (total_bytes f)) [x] [ok] \<longrightarrow>
          unat (total_bytes f') = unat (total_bytes f) + accepted_bytes [x] [ok]) \<and>
       (kernel_accepts m \<longrightarrow>
          unat (total_bytes f') = unat (total_bytes f) + accepted_bytes [x] [ok]))"
proof (cases x)
  case (Write data len)
  with assms have w: "plcrash_async_file_write bufsize f data len m = Some (ok, f', m')"
    and n: "unat (total_bytes f) + unat len < 2 ^ 64"
    by simp_all
  note chk = limit_check_nat [OF n, of "limit_bytes f"]
  from n have s: "unat (total_bytes f + len) = unat (total_bytes f) + unat len"
    by (rule unat_sum)
  then have le: "total_bytes f \<le> total_bytes f + len"
    by (simp add: word_le_nat_alt)
  from file_write_frame [OF w] have
    t: "total_bytes f' =
       (if limit_bytes f \<noteq> 0 \<and> \<not> limit_bytes f < len + total_bytes f
        then total_bytes f + len else total_bytes f)"
    and o: "ok \<longrightarrow> \<not> (limit_bytes f \<noteq> 0 \<and> limit_bytes f < len + total_bytes f)"
    and k: "kernel_accepts m \<longrightarrow>
        ok = (\<not> (limit_bytes f \<noteq> 0 \<and> limit_bytes f < len + total_bytes f))"
    by simp_all
  show ?thesis
  proof (cases "limit_bytes f \<noteq> 0 \<and> \<not> limit_bytes f < len + total_bytes f")
    case True
    with t have "total_bytes f' = total_bytes f + len" by simp
    with True s le chk Write k show ?thesis by (auto simp: unat_gt_0)
  next
    case False
    with t have "total_bytes f' = total_bytes f" by simp
    with False chk Write o show ?thesis by (auto simp: unat_gt_0)
  qed
next
  case Flush
  with assms have "plcrash_async_file_flush f m = Some (ok, f', m')" by simp
  from file_flush_step [OF this] Flush show ?thesis by auto
next
  case Close
  with assms have "plcrash_async_file_close f m = Some (ok, f', m')" by simp
  from file_close_step [OF this] Close show ?thesis by auto
qed

lemma run_ops_Cons:
  assumes "run_ops bufsize (x # xs) f m = Some (oks, f', m')"
  obtains ok f1 m1 oks' where "apply_op bufsize x f m = Some (ok, f1, m1)"
    and "run_ops bufsize xs f1 m1 = Some (oks', f', m')" and "oks = ok # oks'"
  using assms by (auto split: option.splits)

lemma accepted_bytes_Cons:
  "accepted_bytes (x # xs) (ok # oks) = accepted_bytes [x] [ok] + accepted_bytes xs oks"
  by (cases x) simp_all

lemma admitted_bytes_Cons:
  "admitted_bytes limit t (x # xs) = admitted_bytes limit (admitted_bytes limit t [x]) xs"
  by (cases x) simp_all

lemma admitted_succeeded_Cons:
  "admitted_succeeded limit t (x # xs) (ok # oks) =
     (admitted_succeeded limit t [x] [ok] \<and>
      admitted_succeeded limit (admitted_bytes limit t [x]) xs oks)"
  by (cases x) simp_all

lemma admitted_bytes_bound:
  "t \<le> limit \<Longrightarrow> admitted_bytes limit t ops \<le> limit"
  by (induction limit t ops rule: admitted_bytes.induct) auto

lemma run_ops_frame:
  "run_ops bufsize ops f m = Some (oks, f', m') \<Longrightarrow>
     fd f' = fd f \<and> limit_bytes f' = limit_bytes f \<and> buffer f' = buffer f \<and>
     write_env m' = write_env m \<and>
     (buflen f \<le> bufsize \<longrightarrow> buflen f' \<le> bufsize) \<and>
     (limit_bytes f = 0 \<longrightarrow> total_bytes f' = total_bytes f) \<and>
     (total_bytes f \<le> limit_bytes f \<longrightarrow> total_bytes f' \<le> limit_bytes f) \<and>
     length oks = length ops"
proof (induction ops arbitrary: f m oks)
  case Nil
  then show ?case by simp
next
  case (Cons x xs)
  from Cons.prems obtain ok f1 m1 oks' where
    step: "apply_op bufsize x f m = Some (ok, f1, m1)" and
    rest: "run_ops bufsize xs f1 m1 = Some (oks', f', m')" and oks: "oks = ok # oks'"
    by (rule run_ops_Cons)
  from apply_op_frame [OF step] Cons.IH [OF rest] oks show ?case by auto
qed

lemma run_ops_count:
  "run_ops bufsize ops f m = Some (oks, f', m') \<Longrightarrow>
   buflen f \<le> bufsize \<Longrightarrow> unat bufsize < 2 ^ 63 \<Longrightarrow> longest_write ops < 2 ^ 63 \<Longrightarrow>
     length (delivered m (fd f)) + unat (buflen f) + accepted_bytes ops oks
       \<le> length (delivered m' (fd f')) + unat (buflen f') \<and>
     (False \<notin> set oks \<longrightarrow>
        length (delivered m' (fd f')) + unat (buflen f')
          = length (delivered m (fd f)) + unat (buflen f) + accepted_bytes ops oks)"
proof (induction ops arbitrary: f m oks)
  case Nil
  then show ?case by simp
next
  case (Cons x xs)
  from Cons.prems(1) obtain ok f1 m1 oks' where
    step: "apply_op bufsize x f m = Some (ok, f1, m1)" and
    rest: "run_ops bufsize xs f1 m1 = Some (oks', f', m')" and oks: "oks = ok # oks'"
    by (rule run_ops_Cons)
  from Cons.prems(2) have "unat (buflen f) \<le> unat bufsize" by (simp add: word_le_nat_alt)
  with Cons.prems(3,4) have n: "unat (buflen f) + op_length x < 2 ^ 64" by simp
  from apply_op_frame [OF step] Cons.prems(2) have cap: "buflen f1 \<le> bufsize" by simp
  from Cons.prems(4) have "longest_write xs < 2 ^ 63" by simp
  from Cons.IH [OF rest cap Cons.prems(3) this] apply_op_count [OF step n] oks
  show ?case
    by (auto simp: accepted_bytes_Cons [of x xs])
qed

lemma run_ops_total:
  "run_ops bufsize ops f m = Some (oks, f', m') \<Longrightarrow>
   limit_bytes f \<noteq> 0 \<Longrightarrow> total_bytes f \<le> limit_bytes f \<Longrightarrow>
   longest_write ops + unat (limit_bytes f) < 2 ^ 64 \<Longrightarrow>
     total_bytes f \<le> total_bytes f' \<and>
     unat (total_bytes f')
       = admitted_bytes (unat (limit_bytes f)) (unat (total_bytes f)) ops \<and>
     unat (total_bytes f) + accepted_bytes ops oks \<le> unat (total_bytes f') \<and>
     (admitted_succeeded (unat (limit_bytes f)) (unat (total_bytes f)) ops oks \<longrightarrow>
        unat (total_bytes f') = unat (total_bytes f) + accepted_bytes ops oks) \<and>
     (kernel_accepts m \<longrightarrow>
        unat (total_bytes f') = unat (total_bytes f) + accepted_bytes ops oks)"
proof (induction ops arbitrary: f m oks)
  case Nil
  then show ?case by simp
next
  case (Cons x xs)
  from Cons.prems(1) obtain ok f1 m1 oks' where
    step: "apply_op bufsize x f m = Some (ok, f1, m1)" and
    rest: "run_ops bufsize xs f1 m1 = Some (oks', f', m')" and oks: "oks = ok # oks'"
    by (rule run_ops_Cons)
  from Cons.prems(3) have "unat (total_bytes f) \<le> unat (limit_bytes f)"
    by (simp add: word_le_nat_alt)
  with Cons.prems(4) have n: "unat (total_bytes f) + op_length x < 2 ^ 64" by simp
  note fr = apply_op_frame [OF step]
  from fr Cons.prems(2,3) have l1: "limit_bytes f1 \<noteq> 0" "total_bytes f1 \<le> limit_bytes f1"
    and leq: "limit_bytes f1 = limit_bytes f"
    by simp_all
  from Cons.prems(4) leq have "longest_write xs + unat (limit_bytes f1) < 2 ^ 64" by simp
  note IH = Cons.IH [OF rest l1 this]
  from fr have k: "kernel_accepts m1 = kernel_accepts m"
    by (intro kernel_accepts_cong) simp
  note st = apply_op_total [OF step n]
  from st IH have mono: "total_bytes f \<le> total_bytes f'" by auto
  from st IH leq Cons.prems(2) k oks mono show ?case
    by (auto simp: accepted_bytes_Cons [of x xs] admitted_bytes_Cons [of _ _ x xs]
        admitted_succeeded_Cons [of _ _ x xs])
qed

section \<open>The claims about the writer\<close>

lemma file_write_rejected:
  "limit_bytes f \<noteq> 0 \<Longrightarrow> limit_bytes f < total_bytes f + len \<Longrightarrow>
   plcrash_async_file_write bufsize f data len m = Some (False, f, m)"
  by (simp add: plcrash_async_file_write_def add.commute)

lemma file_write_buffered:
  assumes "\<not> (limit_bytes f \<noteq> 0 \<and> limit_bytes f < len + total_bytes f)"
    and "buflen f + len \<le> bufsize"
  shows "plcrash_async_file_write bufsize f data len m =
     Some (True,
       f\<lparr>total_bytes := total_bytes f + (if limit_bytes f \<noteq> 0 then len else 0),
         buflen := buflen f + len\<rparr>,
       m\<lparr>mem := memcpy_loop (mem m) (buffer f + unat (buflen f)) data 0 (unat len)\<rparr>)"
proof -
  from assms(2) have nf: "\<not> bufsize < buflen f + len" by (simp add: not_less)
  from assms(2) have fit: "len + buflen f \<le> bufsize" by (simp add: add.commute)
  have "plcrash_async_file_write bufsize f data len m =
      file_write_data bufsize
        (f\<lparr>total_bytes := total_bytes f + (if limit_bytes f \<noteq> 0 then len else 0)\<rparr>)
        data len m"
    using nf by (simp add: file_write_admitted [OF assms(1)])
  also have "\<dots> = Some (True,
       f\<lparr>total_bytes := total_bytes f + (if limit_bytes f \<noteq> 0 then len else 0),
         buflen := buflen f + len\<rparr>,
       m\<lparr>mem := memcpy_loop (mem m) (buffer f + unat (buflen f)) data 0 (unat len)\<rparr>)"
    using fit by (simp add: file_write_data_def plcrash_async_memcpy_def)
  finally show ?thesis .
qed

text \<open>
  When the kernel takes at least one byte at every \<^verbatim>\<open>write\<close> call, the raw write loop
  returns, and so does every call on the writer and every sequence of calls.
\<close>

lemma file_write_data_returns:
  assumes "kernel_accepts m"
  shows "\<exists>f' m'. file_write_data bufsize f data len m = Some (True, f', m')"
proof (cases "len + buflen f \<le> bufsize")
  case True
  then show ?thesis by (simp add: file_write_data_def plcrash_async_memcpy_def)
next
  case False
  from writen_returns [OF assms, of "fd f" data "unat len"] obtain r m' where
    "plcrash_async_writen (fd f) data (unat len) m = Some (r, m')" "0 \<le> r" by blast
  with False show ?thesis by (simp add: file_write_data_def)
qed

lemma file_write_returns:
  assumes "kernel_accepts m"
  shows "\<exists>ok f' m'. plcrash_async_file_write bufsize f data len m = Some (ok, f', m')"
proof (cases "limit_bytes f \<noteq> 0 \<and> limit_bytes f < len + total_bytes f")
  case True
  then show ?thesis by (auto simp: plcrash_async_file_write_def)
next
  case adm: False
  show ?thesis
  proof (cases "bufsize < buflen f + len")
    case False
    with file_write_data_returns [OF assms] show ?thesis
      by (subst file_write_admitted [OF adm]) (simp, blast)
  next
    case True
    from writen_returns [OF assms, of "fd f" "buffer f" "unat (buflen f)"] obtain r m1 where
      w: "plcrash_async_writen (fd f) (buffer f) (unat (buflen f)) m = Some (r, m1)" and r: "0 \<le> r"
      by blast
    from writen_kernel_accepts(2) [OF assms w] have "kernel_accepts m1" .
    from file_write_data_returns [OF this] w r True show ?thesis
      by (subst file_write_admitted [OF adm]) (simp, blast)
  qed
qed

lemma file_flush_returns:
  assumes "kernel_accepts m"
  shows "\<exists>ok f' m'. plcrash_async_file_flush f m = Some (ok, f', m')"
proof (cases "buflen f = 0")
  case True
  then show ?thesis by (auto simp: plcrash_async_file_flush_def)
next
  case False
  from writen_returns [OF assms, of "fd f" "buffer f" "unat (buflen f)"] obtain r m1 where
    "plcrash_async_writen (fd f) (buffer f) (unat (buflen f)) m = Some (r, m1)" "0 \<le> r"
    by blast
  with False show ?thesis by (auto simp: plcrash_async_file_flush_def)
qed

lemma file_close_returns:
  assumes "kernel_accepts m"
  shows "\<exists>ok f' m'. plcrash_async_file_close f m = Some (ok, f', m')"
proof -
  from file_flush_returns [OF assms] obtain ok f' m' where
    "plcrash_async_file_flush f m = Some (ok, f', m')" by blast
  then show ?thesis
    by (cases "sys_close (fd f') m'") (auto simp: plcrash_async_file_close_def)
qed

lemma apply_op_returns:
  "kernel_accepts m \<Longrightarrow> \<exists>ok f' m'. apply_op bufsize x f m = Some (ok, f', m')"
  by (cases x) (simp_all add: file_write_returns file_flush_returns file_close_returns)

lemma run_ops_returns:
  "kernel_accepts m \<Longrightarrow> \<exists>oks f' m'. run_ops bufsize ops f m = Some (oks, f', m')"
proof (induction ops arbitrary: f m)
  case Nil
  then show ?case by simp
next
  case (Cons x xs)
  from apply_op_returns [OF Cons.prems] obtain ok f1 m1 where
    s: "apply_op bufsize x f m = Some (ok, f1, m1)" by blast
  from apply_op_frame [OF s] Cons.prems have "kernel_accepts m1"
    by (simp add: kernel_accepts_def)
  from Cons.IH [OF this, of f1] s show ?case by auto
qed

text \<open>The definitions to unfold when a call is evaluated on a concrete state.\<close>

lemmas eval_defs = plcrash_async_file_init_def plcrash_async_file_write_def file_write_data_def
      plcrash_async_memcpy_def plcrash_async_writen_def writen_loop.simps sys_write_def
      plcrash_async_file_flush_def plcrash_async_file_close_def sys_close_def EINTR_def

lemma limit_check_exceeds:
  fixes len t limit :: "64 word"
  assumes "unat t + unat len < 2 ^ 64" and "unat limit < unat t + unat len"
  shows "limit < len + t"
  using limit_check_nat [OF assms(1), of limit] assms(2) by (simp add: add.commute)

lemma unat_sum_le: "unat (x + y) \<le> unat x + unat (y :: 64 word)"
  by (simp add: unat_word_ariths)




text \<open>
  Claim C10. In a state with \<open>buflen \<le> bufsize\<close> and, when the limit is nonzero,
  \<open>total_bytes \<le> limit_bytes\<close>, a write of length \<open>0\<close> returns success and changes
  nothing: no write call is issued, and the writer and the machine stay as they were.
\<close>

theorem empty_write_is_identity:
  "buflen f \<le> bufsize \<and> (limit_bytes f \<noteq> 0 \<longrightarrow> total_bytes f \<le> limit_bytes f) \<longrightarrow>
   plcrash_async_file_write bufsize f data 0 m = Some (True, f, m)"
proof
  assume a: "buflen f \<le> bufsize \<and> (limit_bytes f \<noteq> 0 \<longrightarrow> total_bytes f \<le> limit_bytes f)"
  then have "\<not> (limit_bytes f \<noteq> 0 \<and> limit_bytes f < 0 + total_bytes f)" by auto
  from file_write_buffered [OF this, of bufsize data m] a
  show "plcrash_async_file_write bufsize f data 0 m = Some (True, f, m)"
    by (simp add: memcpy_loop_nothing)
qed

theorem empty_write_is_identity_witness:
  "plcrash_async_file_write 256
     \<lparr>fd = 1, limit_bytes = 10, total_bytes = 10, buflen = 256, buffer = 0\<rparr> 100 0
     (fresh_machine (\<lambda>k. Errno 5))
   = Some (True, \<lparr>fd = 1, limit_bytes = 10, total_bytes = 10, buflen = 256, buffer = 0\<rparr>,
           fresh_machine (\<lambda>k. Errno 5))"
  using empty_write_is_identity
    [of "\<lparr>fd = 1, limit_bytes = 10, total_bytes = 10, buflen = 256, buffer = 0\<rparr>" 256 100
        "fresh_machine (\<lambda>k. Errno 5)"]
  by simp

text \<open>
  Claim C6. \<open>plcrash_async_file_flush\<close> succeeds at once, changing nothing, when
  \<open>buflen = 0\<close>. Otherwise it hands the \<open>buflen\<close> buffered bytes to
  \<open>plcrash_async_writen\<close>. When that succeeds, flush returns success with \<open>buflen\<close> reset
  to \<open>0\<close>, and the descriptor has received exactly the buffered bytes. When that fails,
  flush returns failure and the writer structure is returned as it was, with the same
  \<open>buflen\<close>, and the memory, so the buffered bytes, is unchanged: the bytes stay
  buffered and flush can be called again. (The descriptor may by then hold a prefix of
  them: that is the handle's state, which the writer only refers to.)
\<close>

theorem flush_empties_buffer_or_keeps_it:
  "(buflen f = 0 \<longrightarrow> plcrash_async_file_flush f m = Some (True, f, m)) \<and>
   (buflen f \<noteq> 0 \<and> plcrash_async_writen (fd f) (buffer f) (unat (buflen f)) m = Some (r, m') \<and>
      0 \<le> r \<longrightarrow>
      plcrash_async_file_flush f m = Some (True, f\<lparr>buflen := 0\<rparr>, m') \<and>
      delivered m' (fd f) = delivered m (fd f) @ load (mem m) (buffer f) (unat (buflen f))) \<and>
   (buflen f \<noteq> 0 \<and> plcrash_async_writen (fd f) (buffer f) (unat (buflen f)) m = Some (r, m') \<and>
      r < 0 \<longrightarrow>
      plcrash_async_file_flush f m = Some (False, f, m') \<and> mem m' = mem m \<and>
      (\<exists>k\<le>unat (buflen f).
         delivered m' (fd f) = delivered m (fd f) @ load (mem m) (buffer f) k))"
proof (intro conjI impI)
  assume "buflen f = 0"
  then show "plcrash_async_file_flush f m = Some (True, f, m)"
    by (simp add: plcrash_async_file_flush_def)
next
  assume a: "buflen f \<noteq> 0 \<and>
    plcrash_async_writen (fd f) (buffer f) (unat (buflen f)) m = Some (r, m') \<and> 0 \<le> r"
  then show "plcrash_async_file_flush f m = Some (True, f\<lparr>buflen := 0\<rparr>, m')"
    by (simp add: plcrash_async_file_flush_def)
  from a have w: "plcrash_async_writen (fd f) (buffer f) (unat (buflen f)) m = Some (r, m')"
    by simp
  from writen_effect(7) [OF w] a
  show "delivered m' (fd f) = delivered m (fd f) @ load (mem m) (buffer f) (unat (buflen f))"
    by auto
next
  assume a: "buflen f \<noteq> 0 \<and>
    plcrash_async_writen (fd f) (buffer f) (unat (buflen f)) m = Some (r, m') \<and> r < 0"
  then show "plcrash_async_file_flush f m = Some (False, f, m')"
    by (simp add: plcrash_async_file_flush_def)
  from a have w: "plcrash_async_writen (fd f) (buffer f) (unat (buflen f)) m = Some (r, m')"
    by simp
  from writen_effect(1) [OF w] show "mem m' = mem m" .
  from writen_effect(7) [OF w]
  show "\<exists>k\<le>unat (buflen f). delivered m' (fd f) = delivered m (fd f) @ load (mem m) (buffer f) k"
    by blast
qed

theorem flush_empties_buffer_or_keeps_it_witness:
  "plcrash_async_file_flush
     \<lparr>fd = 1, limit_bytes = 0, total_bytes = 0, buflen = 0, buffer = 0\<rparr>
     (fresh_machine (\<lambda>k. Errno 5))
   = Some (True, \<lparr>fd = 1, limit_bytes = 0, total_bytes = 0, buflen = 0, buffer = 0\<rparr>,
           fresh_machine (\<lambda>k. Errno 5)) \<and>
   (\<exists>m'. plcrash_async_file_flush
            \<lparr>fd = 1, limit_bytes = 0, total_bytes = 0, buflen = 3, buffer = 0\<rparr>
            (fresh_machine (\<lambda>k. Transfer 2))
          = Some (True, \<lparr>fd = 1, limit_bytes = 0, total_bytes = 0, buflen = 0, buffer = 0\<rparr>, m') \<and>
        delivered m' 1 = [0, 0, 0]) \<and>
   plcrash_async_file_flush
     \<lparr>fd = 1, limit_bytes = 0, total_bytes = 0, buflen = 3, buffer = 0\<rparr>
     (fresh_machine (\<lambda>k. Errno 5))
   = Some (False, \<lparr>fd = 1, limit_bytes = 0, total_bytes = 0, buflen = 3, buffer = 0\<rparr>,
           (fresh_machine (\<lambda>k. Errno 5))\<lparr>errno := 5, nwrites := 1\<rparr>)"
proof -
  let ?f = "\<lparr>fd = 1, limit_bytes = 0, total_bytes = 0, buflen = 3, buffer = 0\<rparr>"
  let ?e = "\<lparr>fd = 1, limit_bytes = 0, total_bytes = 0, buflen = 0, buffer = 0\<rparr>"
  let ?m = "fresh_machine (\<lambda>k. Errno 5)"
  let ?ma = "fresh_machine (\<lambda>k. Transfer 2)"
  have w: "plcrash_async_writen (fd ?f) (buffer ?f) (unat (buflen ?f)) ?m
      = Some (- 1, ?m\<lparr>errno := 5, nwrites := 1\<rparr>)"
    by (simp add: plcrash_async_writen_def writen_loop.simps sys_write_def EINTR_def)
  have "map_option fst (plcrash_async_writen (fd ?f) (buffer ?f) (unat (buflen ?f)) ?ma) = Some 1"
    by (simp add: plcrash_async_writen_def writen_loop.simps sys_write_def EINTR_def)
  then obtain m' where wa: "plcrash_async_writen (fd ?f) (buffer ?f) (unat (buflen ?f)) ?ma = Some (1, m')"
    by (cases "plcrash_async_writen (fd ?f) (buffer ?f) (unat (buflen ?f)) ?ma") auto
  from flush_empties_buffer_or_keeps_it [of ?e ?m]
  have a: "plcrash_async_file_flush ?e ?m = Some (True, ?e, ?m)"
    by simp
  from flush_empties_buffer_or_keeps_it [of ?f ?ma 1 m'] wa
  have b: "plcrash_async_file_flush ?f ?ma = Some (True, ?e, m') \<and> delivered m' 1 = [0, 0, 0]"
    by (simp add: load_def upt_rec)
  from flush_empties_buffer_or_keeps_it
    [of ?f ?m "- 1" "?m\<lparr>errno := 5, nwrites := 1\<rparr>"] w
  have c: "plcrash_async_file_flush ?f ?m = Some (False, ?f, ?m\<lparr>errno := 5, nwrites := 1\<rparr>)"
    by simp
  from a b c show ?thesis by blast
qed

text \<open>
  Claim C5, as the code has it. When a write triggers the internal flush
  (\<open>buflen + len > bufsize\<close>) and the raw write of the buffer fails, the write returns
  failure and the buffer is not drained: \<open>buflen\<close> keeps its value and the memory, so the
  buffered bytes, is unchanged; a later write or flush sends them again. \<open>total_bytes\<close>
  has already been increased by \<open>len\<close> when the limit is nonzero. The counterexample to
  the claim as stated: with a buffer of four bytes, a write of three bytes is buffered,
  the next write of two bytes triggers the flush, the kernel fails the \<^verbatim>\<open>write\<close> call, the
  write returns failure, and \<open>buflen\<close> is still \<open>3\<close>, not \<open>0\<close>.
\<close>

theorem failed_flush_in_write_keeps_buffer:
  "\<not> (limit_bytes f \<noteq> 0 \<and> limit_bytes f < len + total_bytes f) \<and>
   bufsize < buflen f + len \<and>
   plcrash_async_writen (fd f) (buffer f) (unat (buflen f)) m = Some (r, m') \<and> r < 0 \<longrightarrow>
   plcrash_async_file_write bufsize f data len m
     = Some (False,
         f\<lparr>total_bytes := total_bytes f + (if limit_bytes f \<noteq> 0 then len else 0)\<rparr>, m') \<and>
   mem m' = mem m"
proof
  assume a: "\<not> (limit_bytes f \<noteq> 0 \<and> limit_bytes f < len + total_bytes f) \<and>
   bufsize < buflen f + len \<and>
   plcrash_async_writen (fd f) (buffer f) (unat (buflen f)) m = Some (r, m') \<and> r < 0"
  then have adm: "\<not> (limit_bytes f \<noteq> 0 \<and> limit_bytes f < len + total_bytes f)"
    and w: "plcrash_async_writen (fd f) (buffer f) (unat (buflen f)) m = Some (r, m')"
    by simp_all
  from a have "plcrash_async_file_write bufsize f data len m
     = Some (False,
         f\<lparr>total_bytes := total_bytes f + (if limit_bytes f \<noteq> 0 then len else 0)\<rparr>, m')"
    by (simp add: file_write_admitted [OF adm])
  with writen_effect(1) [OF w] show "plcrash_async_file_write bufsize f data len m
     = Some (False,
         f\<lparr>total_bytes := total_bytes f + (if limit_bytes f \<noteq> 0 then len else 0)\<rparr>, m') \<and>
   mem m' = mem m"
    by simp
qed

theorem failed_flush_in_write_keeps_buffer_witness:
  "plcrash_async_file_write 4
     \<lparr>fd = 1, limit_bytes = 0, total_bytes = 0, buflen = 3, buffer = 0\<rparr> 100 2
     (fresh_machine (\<lambda>k. Errno 5))
   = Some (False, \<lparr>fd = 1, limit_bytes = 0, total_bytes = 0, buflen = 3, buffer = 0\<rparr>,
           (fresh_machine (\<lambda>k. Errno 5))\<lparr>errno := 5, nwrites := 1\<rparr>)"
proof -
  let ?f = "\<lparr>fd = 1, limit_bytes = 0, total_bytes = 0, buflen = 3, buffer = 0\<rparr>"
  let ?m = "fresh_machine (\<lambda>k. Errno 5)"
  have w: "plcrash_async_writen (fd ?f) (buffer ?f) (unat (buflen ?f)) ?m
      = Some (- 1, ?m\<lparr>errno := 5, nwrites := 1\<rparr>)"
    by (simp add: plcrash_async_writen_def writen_loop.simps sys_write_def EINTR_def)
  from failed_flush_in_write_keeps_buffer
    [of ?f 2 4 ?m "- 1" "?m\<lparr>errno := 5, nwrites := 1\<rparr>" 100] w
  show ?thesis by simp
qed

theorem failed_flush_in_write_counterexample:
  "map_option (\<lambda>(oks, f, m). (oks, buflen f, nwrites m))
     (run_ops 4 [Write 100 3, Write 100 2] (plcrash_async_file_init blank_file 1 0)
        (fresh_machine (\<lambda>k. Errno 5)))
   = Some ([True, False], 3, 1)"
  by (simp add: plcrash_async_file_init_def plcrash_async_file_write_def file_write_data_def
      plcrash_async_memcpy_def plcrash_async_writen_def writen_loop.simps sys_write_def
      EINTR_def)

text \<open>
  Claim C9. \<open>buflen \<le> bufsize\<close> holds after \<open>plcrash_async_file_init\<close>, every \<^verbatim>\<open>write\<close>,
  \<^verbatim>\<open>flush\<close> and \<^verbatim>\<open>close\<close> call preserves it, and so it holds in every state reached from
  \<open>plcrash_async_file_init\<close> by a sequence of such calls, whatever the kernel answers.
  (\<open>buflen\<close> is an unsigned integer, so \<open>0 \<le> buflen\<close> holds by its type.)
\<close>

theorem buflen_within_capacity:
  "buflen (plcrash_async_file_init file d lim) \<le> bufsize \<and>
   (buflen f \<le> bufsize \<and> apply_op bufsize x f m = Some (ok, f', m') \<longrightarrow>
      buflen f' \<le> bufsize) \<and>
   (run_ops bufsize ops (plcrash_async_file_init file d lim) mi = Some (oks, fz, mz) \<longrightarrow>
      buflen fz \<le> bufsize)"
proof (intro conjI impI)
  show "buflen (plcrash_async_file_init file d lim) \<le> bufsize"
    by (simp add: plcrash_async_file_init_def)
next
  assume "buflen f \<le> bufsize \<and> apply_op bufsize x f m = Some (ok, f', m')"
  then show "buflen f' \<le> bufsize" using apply_op_frame by blast
next
  assume "run_ops bufsize ops (plcrash_async_file_init file d lim) mi = Some (oks, fz, mz)"
  from run_ops_frame [OF this] show "buflen fz \<le> bufsize"
    by (simp add: plcrash_async_file_init_def)
qed

theorem buflen_within_capacity_witness:
  "(\<exists>ok f' m'.
      apply_op 4 (Write 100 2)
        \<lparr>fd = 1, limit_bytes = 0, total_bytes = 0, buflen = 3, buffer = 0\<rparr>
        (fresh_machine (\<lambda>k. Transfer 2)) = Some (ok, f', m') \<and>
      buflen f' \<le> 4) \<and>
   (\<exists>oks f1 m1.
      run_ops 4 [Write 100 3, Write 100 2, Write 100 9, Flush, Write 100 4, Close]
        (plcrash_async_file_init blank_file 1 0) (fresh_machine (\<lambda>k. Transfer 2))
        = Some (oks, f1, m1) \<and>
      buflen f1 \<le> 4)"
proof -
  let ?m = "fresh_machine (\<lambda>k. Transfer 2)"
  let ?f = "\<lparr>fd = 1, limit_bytes = 0, total_bytes = 0, buflen = 3, buffer = 0\<rparr>"
  let ?step = "apply_op 4 (Write 100 2) ?f ?m"
  let ?run = "run_ops 4 [Write 100 3, Write 100 2, Write 100 9, Flush, Write 100 4, Close]
       (plcrash_async_file_init blank_file 1 0) ?m"
  have "?step \<noteq> None" by (simp add: eval_defs)
  then obtain ok f' m' where s: "?step = Some (ok, f', m')"
    by (metis option.exhaust prod_cases3)
  have "?run \<noteq> None" by (simp add: eval_defs)
  then obtain oks f1 m1 where r: "?run = Some (oks, f1, m1)"
    by (metis option.exhaust prod_cases3)
  have "buflen ?f \<le> 4" by simp
  with s r buflen_within_capacity
    [of blank_file 1 0 4 ?f "Write 100 2" ?m ok f' m'
       "[Write 100 3, Write 100 2, Write 100 9, Flush, Write 100 4, Close]" ?m oks f1 m1]
  have "buflen f' \<le> 4" and "buflen f1 \<le> 4" by blast+
  with s r show ?thesis by blast
qed

text \<open>
  Claim C3, as the code has it, the counters read as unsigned 64-bit numbers. With a
  nonzero limit, when a write of length \<open>r\<close> is
  rejected because \<open>r + total_bytes\<close> exceeds the limit, the rejection leaves the writer
  and the machine untouched (nothing buffered or delivered is rolled back). After any
  further calls every write of length at least \<open>r\<close> is rejected too, provided
  \<open>total_bytes \<le> limit_bytes\<close> held at the rejection (as it does in every state reached
  from \<open>plcrash_async_file_init\<close>) and the limit plus every write length stays below
  \<open>2^64\<close>, so that no sum wraps around. A shorter write is not covered: one with
  \<open>total_bytes + len \<le> limit_bytes\<close> passes the limit check and is counted in
  \<open>total_bytes\<close>. The counterexample to the claim as stated is a writer with limit \<open>10\<close>
  that accepts six bytes, rejects the next six, and then accepts four.
\<close>

theorem rejected_length_stays_rejected:
  "(limit_bytes f \<noteq> 0 \<and> limit_bytes f < r + total_bytes f \<longrightarrow>
      plcrash_async_file_write bufsize f data r m = Some (False, f, m) \<and>
      (total_bytes f \<le> limit_bytes f \<and>
       longest_write ops + unat (limit_bytes f) < 2 ^ 64 \<and>
       run_ops bufsize ops f m = Some (oks, fz, mz) \<and>
       r \<le> len \<and> unat len + unat (limit_bytes f) < 2 ^ 64 \<longrightarrow>
         plcrash_async_file_write bufsize fz data' len mz = Some (False, fz, mz))) \<and>
   (limit_bytes g \<noteq> 0 \<and> unat (total_bytes g) + unat s \<le> unat (limit_bytes g) \<and>
    plcrash_async_file_write bufsize g p s mg = Some (ok, g', mg') \<longrightarrow>
      total_bytes g' = total_bytes g + s)"
proof (intro impI conjI)
  assume a: "limit_bytes f \<noteq> 0 \<and> limit_bytes f < r + total_bytes f"
  then show "plcrash_async_file_write bufsize f data r m = Some (False, f, m)"
    by (simp add: file_write_rejected add.commute)
  assume b: "total_bytes f \<le> limit_bytes f \<and>
       longest_write ops + unat (limit_bytes f) < 2 ^ 64 \<and>
       run_ops bufsize ops f m = Some (oks, fz, mz) \<and>
       r \<le> len \<and> unat len + unat (limit_bytes f) < 2 ^ 64"
  then have run: "run_ops bufsize ops f m = Some (oks, fz, mz)" by simp
  from a b have pre: "limit_bytes f \<noteq> 0" "total_bytes f \<le> limit_bytes f"
    "longest_write ops + unat (limit_bytes f) < 2 ^ 64" by simp_all
  from run_ops_total [OF run pre] have mono: "unat (total_bytes f) \<le> unat (total_bytes fz)"
    by (simp add: word_le_nat_alt)
  from run_ops_frame [OF run] pre have lim: "limit_bytes fz = limit_bytes f"
    and inv: "unat (total_bytes fz) \<le> unat (limit_bytes f)"
    by (simp_all add: word_le_nat_alt)
  from a have "unat (limit_bytes f) < unat (r + total_bytes f)"
    by (simp add: word_less_nat_alt)
  also have "\<dots> \<le> unat r + unat (total_bytes f)" by (rule unat_sum_le)
  also from b mono have "\<dots> \<le> unat len + unat (total_bytes fz)"
    by (simp add: word_le_nat_alt)
  finally have ex: "unat (limit_bytes fz) < unat (total_bytes fz) + unat len"
    by (simp add: lim add.commute)
  from b inv have nw: "unat (total_bytes fz) + unat len < 2 ^ 64" by simp
  from limit_check_exceeds [OF nw ex] pre(1) lim
  show "plcrash_async_file_write bufsize fz data' len mz = Some (False, fz, mz)"
    by (intro file_write_rejected) (simp_all add: add.commute)
next
  assume c: "limit_bytes g \<noteq> 0 \<and> unat (total_bytes g) + unat s \<le> unat (limit_bytes g) \<and>
    plcrash_async_file_write bufsize g p s mg = Some (ok, g', mg')"
  then have w: "plcrash_async_file_write bufsize g p s mg = Some (ok, g', mg')" by simp
  have "unat (limit_bytes g) < 2 ^ LENGTH(64)" by (rule unsigned_less)
  then have "unat (limit_bytes g) < 2 ^ 64" by simp
  with c have nw: "unat (total_bytes g) + unat s < 2 ^ 64" by simp
  from limit_check_nat [OF nw, of "limit_bytes g"] c
  have "\<not> limit_bytes g < s + total_bytes g" by simp
  with file_write_frame [OF w] c show "total_bytes g' = total_bytes g + s" by simp
qed

theorem rejected_length_stays_rejected_witness:
  "plcrash_async_file_write 256
     \<lparr>fd = 1, limit_bytes = 10, total_bytes = 6, buflen = 6, buffer = 0\<rparr> 100 6
     (fresh_machine (\<lambda>k. Transfer 2))
     = Some (False, \<lparr>fd = 1, limit_bytes = 10, total_bytes = 6, buflen = 6, buffer = 0\<rparr>,
         fresh_machine (\<lambda>k. Transfer 2)) \<and>
   (\<exists>oks fz mz.
      run_ops 256 [Write 100 3, Flush]
        \<lparr>fd = 1, limit_bytes = 10, total_bytes = 6, buflen = 6, buffer = 0\<rparr>
        (fresh_machine (\<lambda>k. Transfer 2)) = Some (oks, fz, mz) \<and>
      plcrash_async_file_write 256 fz 100 7 mz = Some (False, fz, mz)) \<and>
   (\<exists>ok g' mg'.
      plcrash_async_file_write 256
        \<lparr>fd = 1, limit_bytes = 10, total_bytes = 6, buflen = 6, buffer = 0\<rparr> 100 4
        (fresh_machine (\<lambda>k. Transfer 2)) = Some (ok, g', mg') \<and>
      total_bytes g' = 10)"
proof -
  let ?m = "fresh_machine (\<lambda>k. Transfer 2)"
  let ?f = "\<lparr>fd = 1, limit_bytes = 10, total_bytes = 6, buflen = 6, buffer = 0\<rparr>"
  let ?run = "run_ops 256 [Write 100 3, Flush] ?f ?m"
  let ?w = "plcrash_async_file_write 256 ?f 100 4 ?m"
  have "?run \<noteq> None" by (simp add: eval_defs)
  then obtain oks fz mz where r: "?run = Some (oks, fz, mz)"
    by (metis option.exhaust prod_cases3)
  have "?w \<noteq> None" by (simp add: eval_defs)
  then obtain ok g' mg' where w: "?w = Some (ok, g', mg')"
    by (metis option.exhaust prod_cases3)
  have h: "limit_bytes ?f \<noteq> 0 \<and> limit_bytes ?f < 6 + total_bytes ?f" by simp
  have h2: "total_bytes ?f \<le> limit_bytes ?f \<and>
       longest_write [Write 100 3, Flush] + unat (limit_bytes ?f) < 2 ^ 64 \<and>
       (6 :: 64 word) \<le> 7 \<and> unat (7 :: 64 word) + unat (limit_bytes ?f) < 2 ^ 64"
    by simp
  have h3: "limit_bytes ?f \<noteq> 0 \<and>
      unat (total_bytes ?f) + unat (4 :: 64 word) \<le> unat (limit_bytes ?f)" by simp
  from rejected_length_stays_rejected
    [of ?f 6 256 100 ?m "[Write 100 3, Flush]" oks fz mz 7 100 ?f 4 100 ?m ok g' mg'] h h2 h3 r w
  have "plcrash_async_file_write 256 ?f 100 6 ?m = Some (False, ?f, ?m)"
    and "plcrash_async_file_write 256 fz 100 7 mz = Some (False, fz, mz)"
    and "total_bytes g' = total_bytes ?f + 4"
    by blast+
  with r w show ?thesis by auto
qed

theorem later_shorter_write_accepted_counterexample:
  "map_option fst
     (run_ops 256 [Write 100 6, Write 100 6, Write 100 4]
        (plcrash_async_file_init blank_file 1 10) (fresh_machine (\<lambda>k. Transfer 2)))
   = Some [True, False, True]"
  by (simp add: eval_defs)

text \<open>
  Claim C4, as the code has it, the counters read as unsigned 64-bit numbers.
  \<open>total_bytes\<close> does not decrease at a call for which \<open>total_bytes + len\<close> stays below
  \<open>2^64\<close> (a larger sum wraps around). With limit \<open>0\<close> it is not maintained and stays \<open>0\<close>. With a nonzero
  limit it never exceeds the limit, and when the limit plus every write length stays
  below \<open>2^64\<close> it is the sum of the lengths of the write calls that passed the limit
  check, counted before anything is buffered or written: it is at least the sum of the
  lengths of the writes that returned success, and it equals that sum when every write
  that passed the limit check returned success, which is the case whenever the kernel
  takes at least one byte at every \<^verbatim>\<open>write\<close> call. The counterexample to the claim as
  stated has two parts: with limit \<open>0\<close> a write of five bytes succeeds and \<open>total_bytes\<close>
  stays \<open>0\<close>; with limit \<open>10\<close> and a buffer of four bytes, a write of three bytes
  succeeds, the next write of two bytes fails in its flush, and \<open>total_bytes\<close> is \<open>5\<close>
  while the successful writes sum to \<open>3\<close>.
\<close>

theorem total_bytes_counts_admitted_writes:
  "(apply_op bufsize x f m = Some (ok, f', m') \<and>
    unat (total_bytes f) + op_length x < 2 ^ 64 \<longrightarrow> total_bytes f \<le> total_bytes f') \<and>
   (run_ops bufsize ops (plcrash_async_file_init file d lim) mi = Some (oks, fz, mz) \<longrightarrow>
      (lim = 0 \<longrightarrow> total_bytes fz = 0) \<and>
      (lim \<noteq> 0 \<longrightarrow> total_bytes fz \<le> lim) \<and>
      (lim \<noteq> 0 \<and> longest_write ops + unat lim < 2 ^ 64 \<longrightarrow>
         unat (total_bytes fz) = admitted_bytes (unat lim) 0 ops \<and>
         accepted_bytes ops oks \<le> unat (total_bytes fz) \<and>
         (admitted_succeeded (unat lim) 0 ops oks \<longrightarrow>
            unat (total_bytes fz) = accepted_bytes ops oks) \<and>
         (kernel_accepts mi \<longrightarrow> unat (total_bytes fz) = accepted_bytes ops oks)))"
proof (intro conjI impI)
  assume "apply_op bufsize x f m = Some (ok, f', m') \<and>
    unat (total_bytes f) + op_length x < 2 ^ 64"
  then have "apply_op bufsize x f m = Some (ok, f', m')"
    and "unat (total_bytes f) + op_length x < 2 ^ 64" by simp_all
  from apply_op_total [OF this] show "total_bytes f \<le> total_bytes f'" by simp
next
  assume run: "run_ops bufsize ops (plcrash_async_file_init file d lim) mi = Some (oks, fz, mz)"
  have init: "limit_bytes (plcrash_async_file_init file d lim) = lim"
    "total_bytes (plcrash_async_file_init file d lim) = 0"
    by (simp_all add: plcrash_async_file_init_def)
  note fr = run_ops_frame [OF run]
  { assume "lim = 0" with fr init show "total_bytes fz = 0" by simp }
  { assume "lim \<noteq> 0" with fr init show "total_bytes fz \<le> lim" by simp }
  { assume a: "lim \<noteq> 0 \<and> longest_write ops + unat lim < 2 ^ 64"
    with init have pre: "limit_bytes (plcrash_async_file_init file d lim) \<noteq> 0"
      "total_bytes (plcrash_async_file_init file d lim) \<le>
         limit_bytes (plcrash_async_file_init file d lim)"
      "longest_write ops + unat (limit_bytes (plcrash_async_file_init file d lim)) < 2 ^ 64"
      by simp_all
    note t = run_ops_total [OF run pre]
    from t init show "unat (total_bytes fz) = admitted_bytes (unat lim) 0 ops"
      and "accepted_bytes ops oks \<le> unat (total_bytes fz)" by simp_all
    { assume "admitted_succeeded (unat lim) 0 ops oks"
      with t init show "unat (total_bytes fz) = accepted_bytes ops oks" by simp }
    { assume "kernel_accepts mi"
      with t init show "unat (total_bytes fz) = accepted_bytes ops oks" by simp } }
qed

theorem total_bytes_counts_admitted_writes_witness:
  "(\<exists>ok f' m'.
      apply_op 4 (Write 100 2)
        \<lparr>fd = 1, limit_bytes = 10, total_bytes = 3, buflen = 3, buffer = 0\<rparr>
        (fresh_machine (\<lambda>k. Errno 5)) = Some (ok, f', m') \<and>
      (3 :: 64 word) \<le> total_bytes f') \<and>
   (\<exists>oks fz mz.
      run_ops 4 [Write 100 3, Write 100 2, Flush]
        (plcrash_async_file_init blank_file 1 0) (fresh_machine (\<lambda>k. Transfer 2))
        = Some (oks, fz, mz) \<and>
      total_bytes fz = 0) \<and>
   (\<exists>oks fz mz.
      run_ops 4 [Write 100 3, Write 100 2, Write 100 6, Write 100 5, Close]
        (plcrash_async_file_init blank_file 1 10) (fresh_machine (\<lambda>k. Transfer 2))
        = Some (oks, fz, mz) \<and>
      total_bytes fz = 10 \<and>
      accepted_bytes [Write 100 3, Write 100 2, Write 100 6, Write 100 5, Close] oks = 10) \<and>
   (\<exists>fz mz.
      run_ops 4 [Write 100 3, Write 100 9, Write 100 2]
        (plcrash_async_file_init blank_file 1 10)
        (fresh_machine (\<lambda>k. if k = 0 then Errno 4 else Transfer 3))
        = Some ([True, False, True], fz, mz) \<and>
      total_bytes fz = 5 \<and> nwrites mz = 2)"
proof -
  let ?ma = "fresh_machine (\<lambda>k. Transfer 2)"
  let ?me = "fresh_machine (\<lambda>k. Errno 5)"
  let ?mi = "fresh_machine (\<lambda>k. if k = 0 then Errno 4 else Transfer 3)"
  let ?f = "\<lparr>fd = 1, limit_bytes = 10, total_bytes = 3, buflen = 3, buffer = 0\<rparr>"
  let ?step = "apply_op 4 (Write 100 2) ?f ?me"
  let ?ops0 = "[Write 100 3, Write 100 2, Flush]"
  let ?ops1 = "[Write 100 3, Write 100 2, Write 100 6, Write 100 5, Close]"
  let ?ops2 = "[Write 100 3, Write 100 9, Write 100 2]"
  let ?run0 = "run_ops 4 ?ops0 (plcrash_async_file_init blank_file 1 0) ?ma"
  let ?run1 = "run_ops 4 ?ops1 (plcrash_async_file_init blank_file 1 10) ?ma"
  let ?run2 = "run_ops 4 ?ops2 (plcrash_async_file_init blank_file 1 10) ?mi"
  have "?step \<noteq> None" by (simp add: eval_defs)
  then obtain ok f' m' where s: "?step = Some (ok, f', m')"
    by (metis option.exhaust prod_cases3)
  have "?run0 \<noteq> None" by (simp add: eval_defs)
  then obtain oks0 fz0 mz0 where r0: "?run0 = Some (oks0, fz0, mz0)"
    by (metis option.exhaust prod_cases3)
  have "?run1 \<noteq> None" by (simp add: eval_defs)
  then obtain oks1 fz1 mz1 where r1: "?run1 = Some (oks1, fz1, mz1)"
    by (metis option.exhaust prod_cases3)
  have "map_option (\<lambda>(oks, f, m). (oks, nwrites m)) ?run2 = Some ([True, False, True], 2)"
    by (simp add: eval_defs)
  then obtain fz2 mz2 where r2: "?run2 = Some ([True, False, True], fz2, mz2)"
    and nw: "nwrites mz2 = 2"
    by (cases ?run2) auto
  have k: "kernel_accepts ?ma" by (simp add: kernel_accepts_def)
  have n: "unat (total_bytes ?f) + op_length (Write 100 2) < 2 ^ 64" by simp
  have b1: "(10 :: 64 word) \<noteq> 0 \<and> longest_write ?ops1 + unat (10 :: 64 word) < 2 ^ 64"
    and b2: "(10 :: 64 word) \<noteq> 0 \<and> longest_write ?ops2 + unat (10 :: 64 word) < 2 ^ 64"
    by simp_all
  have adm: "admitted_bytes (unat (10 :: 64 word)) 0 ?ops1 = 10" by simp
  have suc: "admitted_succeeded (unat (10 :: 64 word)) 0 ?ops2 [True, False, True]"
    and acc: "accepted_bytes ?ops2 [True, False, True] = 5" by simp_all
  from total_bytes_counts_admitted_writes
    [of 4 "Write 100 2" ?f ?me ok f' m' ?ops0 blank_file 1 0 ?ma oks0 fz0 mz0] s n r0
  have a: "3 \<le> total_bytes f'" and b: "total_bytes fz0 = 0" by auto
  from total_bytes_counts_admitted_writes
    [of 4 "Write 100 2" ?f ?me ok f' m' ?ops1 blank_file 1 10 ?ma oks1 fz1 mz1] r1 k adm b1
  have "unat (total_bytes fz1) = 10" and d: "accepted_bytes ?ops1 oks1 = 10" by auto
  then have c: "total_bytes fz1 = 10" by (simp add: word_unat_eq_iff)
  from total_bytes_counts_admitted_writes
    [of 4 "Write 100 2" ?f ?me ok f' m' ?ops2 blank_file 1 10 ?mi "[True, False, True]" fz2 mz2]
    r2 b2 suc acc
  have "unat (total_bytes fz2) = 5" by auto
  then have e: "total_bytes fz2 = 5" by (simp add: word_unat_eq_iff)
  from s a r0 b r1 c d r2 e nw show ?thesis by blast
qed

theorem total_bytes_not_sum_of_successes_counterexample:
  "map_option (\<lambda>(oks, f, m). (oks, accepted_bytes [Write 100 5] oks, total_bytes f))
     (run_ops 256 [Write 100 5]
        (plcrash_async_file_init blank_file 1 0) (fresh_machine (\<lambda>k. Transfer 2)))
   = Some ([True], 5, 0) \<and>
   map_option (\<lambda>(oks, f, m). (oks, accepted_bytes [Write 100 3, Write 100 2] oks, total_bytes f))
     (run_ops 4 [Write 100 3, Write 100 2]
        (plcrash_async_file_init blank_file 1 10) (fresh_machine (\<lambda>k. Errno 5)))
   = Some ([True, False], 3, 5)"
  by (simp add: eval_defs)

text \<open>
  Claim C1, as the code has it. For a writer with limit \<open>0\<close>, a write whose data still
  fits in the buffer (\<open>buflen + len \<le> bufsize\<close>) succeeds without any \<^verbatim>\<open>write\<close> call on the
  descriptor: the bytes are only buffered. After a sequence of \<^verbatim>\<open>write\<close>, \<^verbatim>\<open>flush\<close> and
  \<^verbatim>\<open>close\<close> calls from \<open>plcrash_async_file_init\<close> and a successful \<^verbatim>\<open>close\<close>, the number of
  bytes the descriptor has received is at least the sum of the lengths of the writes
  that returned success, and it is equal to that sum when every call of the sequence,
  the writes and any \<^verbatim>\<open>flush\<close> or \<^verbatim>\<open>close\<close> among them, returned success. (The size of
  the buffer and the write lengths are below \<open>2^63\<close>, as the sizes of objects in memory
  are.) The counterexample to the claim as stated: with a buffer of four bytes, three
  bytes are buffered; the next write of two bytes flushes, the kernel takes one byte
  and then fails, so the write fails and the three bytes stay buffered; \<^verbatim>\<open>close\<close> then
  delivers all three. The descriptor has received four bytes, the successful writes
  sum to three.
\<close>

theorem buffered_until_full_then_delivered:
  "(limit_bytes f = 0 \<and> unat (buflen f) + unat len \<le> unat bufsize \<longrightarrow>
      (\<exists>m'. plcrash_async_file_write bufsize f data len m
              = Some (True, f\<lparr>buflen := buflen f + len\<rparr>, m') \<and>
            nwrites m' = nwrites m \<and> delivered m' = delivered m)) \<and>
   (unat bufsize < 2 ^ 63 \<and> longest_write ops < 2 ^ 63 \<and>
    run_ops bufsize ops (plcrash_async_file_init file d 0) mi = Some (oks, fz, mz) \<and>
    plcrash_async_file_close fz mz = Some (True, fc, mc) \<longrightarrow>
      length (delivered mi d) + accepted_bytes ops oks \<le> length (delivered mc d) \<and>
      (False \<notin> set oks \<longrightarrow>
         length (delivered mc d) = length (delivered mi d) + accepted_bytes ops oks))"
proof (intro conjI impI)
  assume a: "limit_bytes f = 0 \<and> unat (buflen f) + unat len \<le> unat bufsize"
  then have adm: "\<not> (limit_bytes f \<noteq> 0 \<and> limit_bytes f < len + total_bytes f)" by simp
  have "unat bufsize < 2 ^ LENGTH(64)" by (rule unsigned_less)
  with a have "unat (buflen f) + unat len < 2 ^ 64" by simp
  then have "unat (buflen f + len) = unat (buflen f) + unat len" by (rule unat_sum)
  with a have fit: "buflen f + len \<le> bufsize" by (simp add: word_le_nat_alt)
  from file_write_buffered [OF adm fit, of data m] a
  show "\<exists>m'. plcrash_async_file_write bufsize f data len m
              = Some (True, f\<lparr>buflen := buflen f + len\<rparr>, m') \<and>
            nwrites m' = nwrites m \<and> delivered m' = delivered m"
    by simp
next
  assume a: "unat bufsize < 2 ^ 63 \<and> longest_write ops < 2 ^ 63 \<and>
    run_ops bufsize ops (plcrash_async_file_init file d 0) mi = Some (oks, fz, mz) \<and>
    plcrash_async_file_close fz mz = Some (True, fc, mc)"
  then have run: "run_ops bufsize ops (plcrash_async_file_init file d 0) mi = Some (oks, fz, mz)"
    and cl: "plcrash_async_file_close fz mz = Some (True, fc, mc)"
    and b1: "unat bufsize < 2 ^ 63" and b2: "longest_write ops < 2 ^ 63" by simp_all
  have init: "fd (plcrash_async_file_init file d 0) = d"
    "buflen (plcrash_async_file_init file d 0) = 0"
    by (simp_all add: plcrash_async_file_init_def)
  from init have cap: "buflen (plcrash_async_file_init file d 0) \<le> bufsize" by simp
  from run_ops_frame [OF run] init have fdz: "fd fz = d" by simp
  from file_close_step [OF cl] fdz
  have e: "length (delivered mc d) = length (delivered mz d) + unat (buflen fz)" by auto
  note cnt = run_ops_count [OF run cap b1 b2]
  from cnt init fdz e
  show "length (delivered mi d) + accepted_bytes ops oks \<le> length (delivered mc d)"
    by simp
  { assume "False \<notin> set oks"
    with cnt init fdz e
    show "length (delivered mc d) = length (delivered mi d) + accepted_bytes ops oks"
      by simp }
qed

theorem buffered_until_full_then_delivered_witness:
  "(\<exists>m'. plcrash_async_file_write 4
            \<lparr>fd = 1, limit_bytes = 0, total_bytes = 0, buflen = 1, buffer = 0\<rparr> 100 3
            (fresh_machine (\<lambda>k. Errno 5))
          = Some (True, \<lparr>fd = 1, limit_bytes = 0, total_bytes = 0, buflen = 4, buffer = 0\<rparr>, m') \<and>
        nwrites m' = 0) \<and>
   (\<exists>oks fz mz fc mc.
      run_ops 4 [Write 100 3, Write 100 2, Write 100 4]
        (plcrash_async_file_init blank_file 1 0) (fresh_machine (\<lambda>k. Transfer 2))
        = Some (oks, fz, mz) \<and>
      plcrash_async_file_close fz mz = Some (True, fc, mc) \<and>
      length (delivered mc 1) = 9)"
proof -
  let ?ma = "fresh_machine (\<lambda>k. Transfer 2)"
  let ?me = "fresh_machine (\<lambda>k. Errno 5)"
  let ?f = "\<lparr>fd = 1, limit_bytes = 0, total_bytes = 0, buflen = 1, buffer = 0\<rparr>"
  let ?ops = "[Write 100 3, Write 100 2, Write 100 4]"
  let ?run = "run_ops 4 ?ops (plcrash_async_file_init blank_file 1 0) ?ma"
  have "map_option fst ?run = Some [True, True, True]" by (simp add: eval_defs)
  then obtain fz mz where r: "?run = Some ([True, True, True], fz, mz)"
    by (cases ?run) auto
  have "map_option fst (Option.bind ?run (\<lambda>(oks, f, m). plcrash_async_file_close f m))
      = Some True"
    by (simp add: eval_defs)
  with r obtain fc mc where c: "plcrash_async_file_close fz mz = Some (True, fc, mc)"
    by (cases "plcrash_async_file_close fz mz") auto
  have h1: "limit_bytes ?f = 0 \<and> unat (buflen ?f) + unat (3 :: 64 word) \<le> unat (4 :: 64 word)"
    and h2: "unat (4 :: 64 word) < 2 ^ 63 \<and> longest_write ?ops < 2 ^ 63"
    by simp_all
  from buffered_until_full_then_delivered
    [of ?f 3 4 100 ?me ?ops blank_file 1 ?ma "[True, True, True]" fz mz fc mc] r c h1 h2
  have "\<exists>m'. plcrash_async_file_write 4 ?f 100 3 ?me
              = Some (True, ?f\<lparr>buflen := buflen ?f + 3\<rparr>, m') \<and>
            nwrites m' = nwrites ?me \<and> delivered m' = delivered ?me"
    and "length (delivered mc 1) = length (delivered ?ma 1) + accepted_bytes ?ops [True, True, True]"
    by auto
  with r c show ?thesis by auto
qed

theorem partial_flush_delivered_twice_counterexample:
  "Option.bind
     (run_ops 4 [Write 100 3, Write 100 2] (plcrash_async_file_init blank_file 1 0)
        (fresh_machine (\<lambda>k. if k = 0 then Transfer 1 else if k = 1 then Errno 5 else Transfer 4)))
     (\<lambda>(oks, f, m).
        map_option (\<lambda>(ok, f', m').
            (oks, ok, accepted_bytes [Write 100 3, Write 100 2] oks, length (delivered m' 1)))
          (plcrash_async_file_close f m))
   = Some ([True, False], True, 3, 4)"
  by (simp add: eval_defs length_load)

end
